theory Spec2Isabelle
  imports Complex_Main "HOL-Library.Multiset"
begin

section \<open>Errors, calendar times and time pairs\<close>

text \<open>
  The program stops in three ways besides returning: it calls \<open>exit(0)\<close> after printing a
  message, \<open>std::vector::at\<close> throws \<open>std::out_of_range\<close> (never caught), or it runs
  into undefined behaviour (an unchecked \<open>operator[]\<close> past the end, an integer
  division by zero). Each is a value of \<open>error\<close>; a function that can stop returns
  \<open>error + 'a\<close>, with \<open>Inl\<close> the stop.
\<close>

datatype error =
    ExitDateNotConverted      \<comment> \<open>getTimeValue: "The date couldn't be converted."\<close>
  | ExitOutOfRange            \<comment> \<open>Cell::isWithinInterval: "ERROR: Out of range (rowList_)."\<close>
  | ExitInvalidInterval       \<comment> \<open>Cell::isWithinInterval: "ERROR: Invalid interval."\<close>
  | ExitNegativeTimeDiff      \<comment> \<open>User::findResidentialAreaBySpeed: "ERROR: timeDiff < 0."\<close>
  | ThrowOutOfRange           \<comment> \<open>std::vector::at past the end\<close>
  | UndefinedIndex            \<comment> \<open>unchecked operator[] past the end of a vector\<close>
  | UndefinedDivByZero        \<comment> \<open>integer division by zero\<close>

text \<open>
  A broken-down calendar time (\<open>struct tm\<close>) is represented by the number of seconds
  \<open>mktime\<close> gives for it; \<open>mktime\<close> answers \<open>-1\<close> for a time it cannot represent.
  \<open>time_t\<close> is a 64-bit count of seconds, far from its bounds for every calendar date.
\<close>

type_synonym tm = int
type_synonym time_t = int
type_synonym TIMEPAIR = "tm \<times> tm"

definition mktime :: "tm \<Rightarrow> time_t" where
  "mktime datetime = datetime"

definition getTimeValue :: "tm \<Rightarrow> error + time_t" where
  "getTimeValue datetime =
     (let t = mktime datetime in
      if t = - 1 then Inl ExitDateNotConverted else Inr t)"

text \<open>
  \<open>difftime\<close> of two second counts: the difference is exact in a \<open>double\<close> (both counts
  are far below \<open>2^53\<close>), so it is the integer difference.
\<close>

definition difftime :: "time_t \<Rightarrow> time_t \<Rightarrow> int" where
  "difftime t1 t0 = t1 - t0"

section \<open>merge (general_functions.h)\<close>

text \<open>\<open>target->at(idxTarget)\<close>: the checked read of a vector.\<close>

definition vector_at :: "'a list \<Rightarrow> nat \<Rightarrow> error + 'a" where
  "vector_at v n = (if n < length v then Inr (v ! n) else Inl ThrowOutOfRange)"

text \<open>
  The second half of the loop body of \<open>merge\<close> (lines 48 to 53): the interval
  \<open>target->at(idxTarget)\<close> is pushed onto \<open>merged\<close> when \<open>merged\<close> is empty or its last
  interval ends strictly before the new one starts; otherwise the last interval's end is
  raised to the new interval's end when that is later.
\<close>

definition place :: "TIMEPAIR list \<Rightarrow> nat \<Rightarrow> TIMEPAIR list \<Rightarrow> error + TIMEPAIR list" where
  "place target idxTarget merged =
     (if merged = [] then
        (case vector_at target idxTarget of
           Inl e \<Rightarrow> Inl e
         | Inr p \<Rightarrow> Inr (merged @ [p]))
      else
        (case getTimeValue (snd (last merged)) of
           Inl e \<Rightarrow> Inl e
         | Inr backEnd \<Rightarrow>
        (case vector_at target idxTarget of
           Inl e \<Rightarrow> Inl e
         | Inr p \<Rightarrow>
        (case getTimeValue (fst p) of
           Inl e \<Rightarrow> Inl e
         | Inr pStart \<Rightarrow>
             if backEnd < pStart then Inr (merged @ [p])
             else
               (case getTimeValue (snd p) of
                  Inl e \<Rightarrow> Inl e
                | Inr pEnd \<Rightarrow>
                    if backEnd < pEnd
                    then Inr (butlast merged @ [(fst (last merged), snd p)])
                    else Inr merged)))))"

text \<open>
  The \<open>while\<close> loop of \<open>merge\<close>, as a function of \<open>idx1\<close>, \<open>idx2\<close> and \<open>merged\<close>; it
  returns their values when the loop ends. Under the loop guard one of the three branches
  of the source always applies (when not both indices are inside, one of them is at its
  vector's size), so \<open>target\<close> and \<open>idxTarget\<close> are assigned afresh in every iteration
  and are not part of the state.
\<close>

function merge_loop ::
  "TIMEPAIR list \<Rightarrow> TIMEPAIR list \<Rightarrow> nat \<Rightarrow> nat \<Rightarrow> TIMEPAIR list
     \<Rightarrow> error + (nat \<times> nat \<times> TIMEPAIR list)" where
  "merge_loop v1 v2 idx1 idx2 merged =
     (if idx1 \<le> length v1 \<and> idx2 \<le> length v2 then
        (if idx1 < length v1 \<and> idx2 < length v2 then
           (case getTimeValue (fst (v1 ! idx1)) of
              Inl e \<Rightarrow> Inl e
            | Inr s1 \<Rightarrow>
           (case getTimeValue (fst (v2 ! idx2)) of
              Inl e \<Rightarrow> Inl e
            | Inr s2 \<Rightarrow>
                if s1 < s2 then
                  (case place v1 idx1 merged of
                     Inl e \<Rightarrow> Inl e
                   | Inr merged' \<Rightarrow> merge_loop v1 v2 (idx1 + 1) idx2 merged')
                else
                  (case place v2 idx2 merged of
                     Inl e \<Rightarrow> Inl e
                   | Inr merged' \<Rightarrow> merge_loop v1 v2 idx1 (idx2 + 1) merged')))
         else if idx1 = length v1 then
           (case place v2 idx2 merged of
              Inl e \<Rightarrow> Inl e
            | Inr merged' \<Rightarrow> merge_loop v1 v2 (idx1 + 1) (idx2 + 1) merged')
         else
           (case place v1 idx1 merged of
              Inl e \<Rightarrow> Inl e
            | Inr merged' \<Rightarrow> merge_loop v1 v2 (idx1 + 1) (idx2 + 1) merged'))
      else Inr (idx1, idx2, merged))"
  by pat_completeness auto
termination
  by (relation "measure (\<lambda>(v1, v2, idx1, idx2, merged).
        (Suc (length v1) - idx1) + (Suc (length v2) - idx2))") auto

text \<open>
  \<open>merge\<close>: the loop from \<open>idx1 = idx2 = 0\<close> and the empty \<open>merged\<close>, then the two
  \<open>insert\<close>s of what is left of \<open>v1\<close> and of \<open>v2\<close>.
\<close>

definition merge :: "TIMEPAIR list \<Rightarrow> TIMEPAIR list \<Rightarrow> error + TIMEPAIR list" where
  "merge v1 v2 =
     (case merge_loop v1 v2 0 0 [] of
        Inl e \<Rightarrow> Inl e
      | Inr (idx1, idx2, merged) \<Rightarrow>
          Inr (merged
               @ (if idx1 < length v1 then drop idx1 v1 else [])
               @ (if idx2 < length v2 then drop idx2 v2 else [])))"

section \<open>DataRow and Cell (datarow.h, cell.h)\<close>

text \<open>
  A \<open>DataRow\<close> holds one record of the log; \<open>lon_\<close> and \<open>lat_\<close> are \<open>double\<close>s, which the
  functions below only carry around or hand to the distance function.
\<close>

record DataRow =
  datetime :: tm
  lon :: real
  lat :: real
  tag :: string
  areaId :: int

definition newDataRow :: "tm \<Rightarrow> real \<Rightarrow> real \<Rightarrow> string \<Rightarrow> DataRow" where
  "newDataRow dt lo la tg =
     \<lparr>datetime = dt, lon = lo, lat = la, tag = tg, areaId = 0\<rparr>"

definition setAreaID :: "DataRow \<Rightarrow> int \<Rightarrow> DataRow" where
  "setAreaID d ident = d\<lparr>areaId := ident\<rparr>"

text \<open>\<open>compareByTime\<close>: \<open>difftime(getTimeValue(a), getTimeValue(b)) < 0\<close>.\<close>

definition compareByTime :: "DataRow \<Rightarrow> DataRow \<Rightarrow> error + bool" where
  "compareByTime a b =
     (case getTimeValue (datetime a) of
        Inl e \<Rightarrow> Inl e
      | Inr ta \<Rightarrow>
     (case getTimeValue (datetime b) of
        Inl e \<Rightarrow> Inl e
      | Inr tb \<Rightarrow> Inr (difftime ta tb < 0)))"

record Cell =
  Cell_tag :: string
  Cell_rowList :: "DataRow list"

definition newCell :: "DataRow \<Rightarrow> string \<Rightarrow> Cell" where
  "newCell r tg = \<lparr>Cell_tag = tg, Cell_rowList = [] @ [r]\<rparr>"

definition addDataRow :: "Cell \<Rightarrow> DataRow \<Rightarrow> Cell" where
  "addDataRow c d = c\<lparr>Cell_rowList := Cell_rowList c @ [d]\<rparr>"

definition numConnections :: "Cell \<Rightarrow> int" where
  "numConnections c = int (length (Cell_rowList c))"

definition getName :: "Cell \<Rightarrow> string" where
  "getName c = Cell_tag c"

text \<open>An unchecked \<open>v[n]\<close>: reading past the end is undefined behaviour.\<close>

definition index :: "'a list \<Rightarrow> nat \<Rightarrow> error + 'a" where
  "index v n = (if n < length v then Inr (v ! n) else Inl UndefinedIndex)"

definition isWithinInterval :: "Cell \<Rightarrow> int \<Rightarrow> int \<Rightarrow> int \<Rightarrow> error + bool" where
  "isWithinInterval c i j interval =
     (if i < 0 \<or> j < 0 \<or> i \<ge> int (length (Cell_rowList c)) \<or> j \<ge> int (length (Cell_rowList c))
      then Inl ExitOutOfRange
      else if interval < 0 then Inl ExitInvalidInterval
      else
        (case getTimeValue (datetime (Cell_rowList c ! nat j)) of
           Inl e \<Rightarrow> Inl e
         | Inr tj \<Rightarrow>
        (case getTimeValue (datetime (Cell_rowList c ! nat i)) of
           Inl e \<Rightarrow> Inl e
         | Inr ti \<Rightarrow> Inr (difftime tj ti \<le> interval))))"

text \<open>
  The \<open>for\<close> loop of \<open>Cell::getTimeSegments\<close>, as a function of \<open>i\<close>, \<open>low\<close>, \<open>high\<close>,
  \<open>segment.first\<close> and \<open>segmentList\<close>. \<open>segment.second\<close> is assigned just before each
  \<open>push_back\<close> and read nowhere else, so it is not part of the state.
\<close>

function getTimeSegments_loop ::
  "Cell \<Rightarrow> int \<Rightarrow> nat \<Rightarrow> nat \<Rightarrow> nat \<Rightarrow> tm \<Rightarrow> TIMEPAIR list
     \<Rightarrow> error + (nat \<times> tm \<times> TIMEPAIR list)" where
  "getTimeSegments_loop c interval i low high segFirst segmentList =
     (if i < length (Cell_rowList c) then
        (case isWithinInterval c (int low) (int i) interval of
           Inl e \<Rightarrow> Inl e
         | Inr isWithin \<Rightarrow>
             if \<not> isWithin then
               (case index (Cell_rowList c) high of
                  Inl e \<Rightarrow> Inl e
                | Inr rHigh \<Rightarrow>
                    getTimeSegments_loop c interval (i + 1) i i
                      (datetime (Cell_rowList c ! i))
                      (segmentList @ [(segFirst, datetime rHigh)]))
             else getTimeSegments_loop c interval (i + 1) low i segFirst segmentList)
      else Inr (high, segFirst, segmentList))"
  by pat_completeness auto
termination
  by (relation "measure (\<lambda>(c, interval, i, low, high, segFirst, segmentList).
        length (Cell_rowList c) - i)") auto

definition getTimeSegments :: "Cell \<Rightarrow> int \<Rightarrow> error + TIMEPAIR list" where
  "getTimeSegments c interval =
     (case index (Cell_rowList c) 0 of
        Inl e \<Rightarrow> Inl e
      | Inr r0 \<Rightarrow>
     (case getTimeSegments_loop c interval 0 0 0 (datetime r0) [] of
        Inl e \<Rightarrow> Inl e
      | Inr (high, segFirst, segmentList) \<Rightarrow>
     (case index (Cell_rowList c) high of
        Inl e \<Rightarrow> Inl e
      | Inr rHigh \<Rightarrow> Inr (segmentList @ [(segFirst, datetime rHigh)]))))"

section \<open>User: the activity ranking and readFile (user.h)\<close>

type_synonym PAIR = "string \<times> int"

definition compareBySecondValue :: "PAIR \<Rightarrow> PAIR \<Rightarrow> bool" where
  "compareBySecondValue a b = (snd a < snd b)"

text \<open>
  \<open>cellQueue_\<close> is a \<open>std::priority_queue\<close> ordered by \<open>compareBySecondValue\<close>: \<open>top()\<close>
  is an element that the comparison puts below no other element of the queue, and
  \<open>pop()\<close> removes it. The queue is the list of its elements in the order they were
  pushed; among several elements of the greatest count, \<open>top()\<close> is the one pushed first
  (the standard library leaves that choice to its heap).
\<close>

fun pq_greatest :: "PAIR \<Rightarrow> PAIR list \<Rightarrow> PAIR" where
  "pq_greatest x [] = x"
| "pq_greatest x (y # ys) = pq_greatest (if compareBySecondValue x y then y else x) ys"

definition pq_push :: "PAIR list \<Rightarrow> PAIR \<Rightarrow> PAIR list" where
  "pq_push q x = q @ [x]"

definition pq_empty :: "PAIR list \<Rightarrow> bool" where
  "pq_empty q = (q = [])"

definition pq_top :: "PAIR list \<Rightarrow> PAIR" where
  "pq_top q = pq_greatest (hd q) (tl q)"

definition pq_pop :: "PAIR list \<Rightarrow> PAIR list" where
  "pq_pop q = remove1 (pq_top q) q"

text \<open>Popping until the queue is empty: the order in which the loop sees the cells.\<close>

fun pq_drain_fuel :: "nat \<Rightarrow> PAIR list \<Rightarrow> PAIR list" where
  "pq_drain_fuel 0 q = []"
| "pq_drain_fuel (Suc n) q =
     (if pq_empty q then [] else pq_top q # pq_drain_fuel n (pq_pop q))"

definition pq_drain :: "PAIR list \<Rightarrow> PAIR list" where
  "pq_drain q = pq_drain_fuel (length q) q"

text \<open>
  Whatever the heap's choice among equal counts: \<open>drains q out\<close> holds when \<open>out\<close> lists
  the elements of \<open>q\<close> in an order in which popping can return them, each popped element
  being one that \<open>compareBySecondValue\<close> puts below no element still in the queue.
\<close>

inductive drains :: "PAIR list \<Rightarrow> PAIR list \<Rightarrow> bool" where
  drains_empty: "drains [] []"
| drains_pop: "x \<in> set q \<Longrightarrow> \<forall>y \<in> set q. \<not> compareBySecondValue x y \<Longrightarrow>
     drains (remove1 x q) out \<Longrightarrow> drains q (x # out)"

record User =
  rowList :: "DataRow list"
  cellMap :: "string \<Rightarrow> nat option"
  cellList :: "Cell list"
  cellQueue :: "PAIR list"

text \<open>
  \<open>std::sort\<close> with \<open>compareByTime\<close>. The comparison is all the sort knows of the rows,
  and it stops the program on a date that cannot be converted; an insertion sort that
  calls the same comparison stands for the library's algorithm (the order it gives rows
  of equal time is the library's choice).
\<close>

fun insertByTime :: "DataRow \<Rightarrow> DataRow list \<Rightarrow> error + DataRow list" where
  "insertByTime x [] = Inr [x]"
| "insertByTime x (y # ys) =
     (case compareByTime x y of
        Inl e \<Rightarrow> Inl e
      | Inr isLess \<Rightarrow>
          if isLess then Inr (x # y # ys)
          else (case insertByTime x ys of
                  Inl e \<Rightarrow> Inl e
                | Inr zs \<Rightarrow> Inr (y # zs)))"

fun sortByTime :: "DataRow list \<Rightarrow> error + DataRow list" where
  "sortByTime [] = Inr []"
| "sortByTime (x # xs) =
     (case sortByTime xs of
        Inl e \<Rightarrow> Inl e
      | Inr ys \<Rightarrow> insertByTime x ys)"

text \<open>
  \<open>User::readFile\<close> from the parsed records on (opening the file, splitting the lines and
  parsing the fields belong to the input side). One pass of the \<open>while\<close> loop per record:
\<close>

definition readRow :: "User \<Rightarrow> DataRow \<Rightarrow> error + User" where
  "readRow u d =
     (let u1 = u\<lparr>rowList := rowList u @ [d]\<rparr> in
      case cellMap u1 (tag d) of
        Some idx \<Rightarrow>
          (case index (cellList u1) idx of
             Inl e \<Rightarrow> Inl e
           | Inr c \<Rightarrow> Inr (u1\<lparr>cellList := (cellList u1)[idx := addDataRow c d]\<rparr>))
      | None \<Rightarrow>
          (let cl = cellList u1 @ [newCell d (tag d)] in
           Inr (u1\<lparr>cellList := cl, cellMap := (cellMap u1)(tag d \<mapsto> length cl - 1)\<rparr>)))"

fun readRows :: "User \<Rightarrow> DataRow list \<Rightarrow> error + User" where
  "readRows u [] = Inr u"
| "readRows u (d # ds) =
     (case readRow u d of
        Inl e \<Rightarrow> Inl e
      | Inr u' \<Rightarrow> readRows u' ds)"

text \<open>The loop over \<open>cellList_\<close> (lines 84 to 87): push the cell's count, sort its rows.\<close>

fun rankAndSortCells :: "Cell list \<Rightarrow> PAIR list \<Rightarrow> error + (Cell list \<times> PAIR list)" where
  "rankAndSortCells [] q = Inr ([], q)"
| "rankAndSortCells (c # cs) q =
     (let q1 = pq_push q (getName c, numConnections c) in
      case sortByTime (Cell_rowList c) of
        Inl e \<Rightarrow> Inl e
      | Inr rows \<Rightarrow>
     (case rankAndSortCells cs q1 of
        Inl e \<Rightarrow> Inl e
      | Inr (cs', q') \<Rightarrow> Inr (c\<lparr>Cell_rowList := rows\<rparr> # cs', q')))"

definition emptyUser :: User where
  "emptyUser = \<lparr>rowList = [], cellMap = Map.empty, cellList = [], cellQueue = []\<rparr>"

definition readFile :: "DataRow list \<Rightarrow> error + User" where
  "readFile records =
     (case readRows emptyUser records of
        Inl e \<Rightarrow> Inl e
      | Inr u \<Rightarrow>
     (case rankAndSortCells (cellList u) (cellQueue u) of
        Inl e \<Rightarrow> Inl e
      | Inr (cs, q) \<Rightarrow>
     (case sortByTime (rowList u) of
        Inl e \<Rightarrow> Inl e
      | Inr rows \<Rightarrow> Inr (u\<lparr>cellList := cs, cellQueue := q, rowList := rows\<rparr>))))"

section \<open>User::findResidentialAreaByTopKCells (user.h)\<close>

text \<open>
  \<open>int\<close> division truncates towards zero; dividing by zero is undefined behaviour.
\<close>

definition int_div :: "int \<Rightarrow> int \<Rightarrow> error + int" where
  "int_div a b =
     (if b = 0 then Inl UndefinedDivByZero
      else Inr (sgn a * sgn b * (\<bar>a\<bar> div \<bar>b\<bar>)))"

text \<open>
  \<open>int stayTime = currSegList.size() * interval\<close>: \<open>interval\<close> is converted to the
  64-bit unsigned \<open>size_t\<close>, the product is taken there, and the conversion to \<open>int\<close>
  keeps its low 32 bits, read as a signed number.
\<close>

definition size_t_of_int :: "int \<Rightarrow> int" where
  "size_t_of_int i = i mod 2 ^ 64"

definition int_of_size_t :: "int \<Rightarrow> int" where
  "int_of_size_t n = (n + 2 ^ 31) mod 2 ^ 32 - 2 ^ 31"

definition stayTimeOf :: "TIMEPAIR list \<Rightarrow> int \<Rightarrow> int" where
  "stayTimeOf currSegList interval =
     int_of_size_t ((int (length currSegList) * size_t_of_int interval) mod 2 ^ 64)"

text \<open>
  The function's local state: \<open>areaMap\<close> (cell tag to area id), the counter \<open>areaID\<close> and
  \<open>areaList\<close> (the merged segments of each area, area \<open>i + 1\<close> at index \<open>i\<close>).
\<close>

record Areas =
  areaMap :: "string \<Rightarrow> int option"
  areaID :: int
  areaList :: "TIMEPAIR list list"

text \<open>
  The inner \<open>for\<close> loop over \<open>areaList\<close>, from index \<open>i\<close> on; it returns the flag
  \<open>merged\<close> with the state.
\<close>

function areaLoop :: "string \<Rightarrow> TIMEPAIR list \<Rightarrow> Areas \<Rightarrow> nat \<Rightarrow> error + (bool \<times> Areas)" where
  "areaLoop cellTag currSegList st i =
     (if i < length (areaList st) then
        (case merge currSegList (areaList st ! i) of
           Inl e \<Rightarrow> Inl e
         | Inr mergedSegList \<Rightarrow>
             if length mergedSegList < length currSegList + length (areaList st ! i)
             then Inr (True, st\<lparr>areaList := (areaList st)[i := mergedSegList],
                                areaMap := (areaMap st)(cellTag \<mapsto> int i + 1)\<rparr>)
             else areaLoop cellTag currSegList st (i + 1))
      else Inr (False, st))"
  by pat_completeness auto
termination
  by (relation "measure (\<lambda>(cellTag, currSegList, st, i). length (areaList st) - i)") auto

text \<open>The body of \<open>if (stayTime > 3600)\<close>: the loop over the areas, then the new area.\<close>

definition assignArea :: "string \<Rightarrow> TIMEPAIR list \<Rightarrow> Areas \<Rightarrow> error + Areas" where
  "assignArea cellTag currSegList st =
     (case areaLoop cellTag currSegList st 0 of
        Inl e \<Rightarrow> Inl e
      | Inr (merged, st') \<Rightarrow>
          if \<not> merged
          then Inr (st'\<lparr>areaMap := (areaMap st')(cellTag \<mapsto> areaID st'),
                        areaID := areaID st' + 1,
                        areaList := areaList st' @ [currSegList]\<rparr>)
          else Inr st')"

text \<open>
  \<open>cellMap_[cellTag]\<close>: \<open>operator[]\<close> of an \<open>unordered_map\<close> inserts a missing key with
  the value \<open>0\<close>.
\<close>

definition cellMap_index ::
  "(string \<Rightarrow> nat option) \<Rightarrow> string \<Rightarrow> nat \<times> (string \<Rightarrow> nat option)" where
  "cellMap_index m k = (case m k of Some v \<Rightarrow> (v, m) | None \<Rightarrow> (0, m(k \<mapsto> 0)))"

text \<open>
  The \<open>while (!cellQueue_.empty())\<close> loop. It returns the user and the local state when
  the queue is empty or at the \<open>break\<close>.
\<close>

function topKLoop :: "int \<Rightarrow> User \<Rightarrow> Areas \<Rightarrow> error + (User \<times> Areas)" where
  "topKLoop interval u st =
     (if pq_empty (cellQueue u) then Inr (u, st)
      else
        (let cellTag = fst (pq_top (cellQueue u));
             num = snd (pq_top (cellQueue u));
             u1 = u\<lparr>cellMap := snd (cellMap_index (cellMap u) cellTag)\<rparr> in
         case index (cellList u1) (fst (cellMap_index (cellMap u) cellTag)) of
           Inl e \<Rightarrow> Inl e
         | Inr cell \<Rightarrow>
        (case getTimeSegments cell interval of
           Inl e \<Rightarrow> Inl e
         | Inr currSegList \<Rightarrow>
        (case int_div 3600 interval of
           Inl e \<Rightarrow> Inl e
         | Inr minNum \<Rightarrow>
             if num < minNum then Inr (u1, st)
             else
               (case (if stayTimeOf currSegList interval > 3600
                      then assignArea cellTag currSegList st
                      else Inr st) of
                  Inl e \<Rightarrow> Inl e
                | Inr st' \<Rightarrow>
                    topKLoop interval (u1\<lparr>cellQueue := pq_pop (cellQueue u1)\<rparr>) st')))))"
  by pat_completeness auto
termination
proof -
  have g: "pq_greatest y ys \<in> set (y # ys)" for y ys
    by (induction ys arbitrary: y) auto
  have shorter: "length (pq_pop q) < length q" if "\<not> pq_empty q" for q
  proof -
    from that obtain x xs where q: "q = x # xs"
      by (cases q) (auto simp: pq_empty_def)
    have "pq_top q \<in> set q"
      using g [of x xs] by (simp add: q pq_top_def)
    moreover have "0 < length q"
      by (simp add: q)
    ultimately show ?thesis
      by (simp add: pq_pop_def length_remove1)
  qed
  show ?thesis
    by (relation "measure (\<lambda>(interval, u, st). length (cellQueue u))")
       (simp_all add: shorter)
qed

text \<open>
  After the loop every row whose tag is in \<open>areaMap\<close> gets that area id. (The files the
  function then writes take no part in what follows.)
\<close>

definition updateAreaIDs :: "(string \<Rightarrow> int option) \<Rightarrow> DataRow list \<Rightarrow> DataRow list" where
  "updateAreaIDs m rows =
     map (\<lambda>r. case m (tag r) of Some a \<Rightarrow> setAreaID r a | None \<Rightarrow> r) rows"

definition initialAreas :: Areas where
  "initialAreas = \<lparr>areaMap = Map.empty, areaID = 1, areaList = []\<rparr>"

definition findResidentialAreaByTopKCells :: "int \<Rightarrow> User \<Rightarrow> error + (User \<times> Areas)" where
  "findResidentialAreaByTopKCells interval u =
     (case topKLoop interval u initialAreas of
        Inl e \<Rightarrow> Inl e
      | Inr (u', st) \<Rightarrow>
          Inr (u'\<lparr>rowList := updateAreaIDs (areaMap st) (rowList u')\<rparr>, st))"

section \<open>User::findResidentialAreaBySpeed (user.h)\<close>

definition movingSpeed :: real where
  "movingSpeed = 0.0125"

definition upscalingFactor :: real where
  "upscalingFactor = 1.1"

definition minInterval :: real where
  "minInterval = 600"

text \<open>
  \<open>createJsonFile(filename, list, low, high)\<close> reads \<open>list[i]\<close> for every \<open>i\<close> from \<open>low\<close>
  up to \<open>high - 1\<close>, unchecked, and writes their coordinates.
\<close>

definition createJsonFile :: "DataRow list \<Rightarrow> nat \<Rightarrow> nat \<Rightarrow> error + (real \<times> real) list" where
  "createJsonFile list low high =
     (if low < high \<and> length list < high then Inl UndefinedIndex
      else Inr (map (\<lambda>i. (lon (list ! i), lat (list ! i))) [low..<high]))"

text \<open>
  A written file: its number, the two times in its name and the coordinates in it.
\<close>

record SegmentFile =
  fileMapID :: int
  fileFrom :: tm
  fileTo :: tm
  fileCoordinates :: "(real \<times> real) list"

text \<open>
  The step both the loop and the code after it take for a finished segment: compute
  \<open>stayInterval\<close> from \<open>rowList_[high - 1]\<close> and \<open>rowList_[low]\<close>, and write the file when
  it is longer than \<open>minInterval\<close>. It returns the next \<open>mapID\<close> and the files so far.
\<close>

definition outputSegment ::
  "DataRow list \<Rightarrow> int \<Rightarrow> nat \<Rightarrow> nat \<Rightarrow> SegmentFile list \<Rightarrow> error + (int \<times> SegmentFile list)" where
  "outputSegment rows mapID low high files =
     (case index rows (high - 1) of
        Inl e \<Rightarrow> Inl e
      | Inr rHigh \<Rightarrow>
     (case getTimeValue (datetime rHigh) of
        Inl e \<Rightarrow> Inl e
      | Inr tHigh \<Rightarrow>
     (case index rows low of
        Inl e \<Rightarrow> Inl e
      | Inr rLow \<Rightarrow>
     (case getTimeValue (datetime rLow) of
        Inl e \<Rightarrow> Inl e
      | Inr tLow \<Rightarrow>
          if real_of_int (difftime tHigh tLow) > minInterval then
            (case createJsonFile rows low high of
               Inl e \<Rightarrow> Inl e
             | Inr coordinates \<Rightarrow>
                 Inr (mapID + 1,
                      files @ [\<lparr>fileMapID = mapID, fileFrom = datetime rLow,
                                 fileTo = datetime rHigh, fileCoordinates = coordinates\<rparr>]))
          else Inr (mapID, files)))))"

text \<open>
  The \<open>for\<close> loop from \<open>i\<close> on (the source starts it at \<open>i = 1\<close>), as a function of \<open>i\<close>,
  \<open>mapID\<close>, \<open>low\<close>, \<open>high\<close> and the files written. \<open>distanceEarth\<close> (haversine_formula.h)
  is a parameter: the great-circle distance of two positions.
\<close>

function speedLoop ::
  "(real \<Rightarrow> real \<Rightarrow> real \<Rightarrow> real \<Rightarrow> real) \<Rightarrow> DataRow list \<Rightarrow> nat \<Rightarrow> int \<Rightarrow> nat \<Rightarrow> nat
     \<Rightarrow> SegmentFile list \<Rightarrow> error + (int \<times> nat \<times> nat \<times> SegmentFile list)" where
  "speedLoop distanceEarth rows i mapID low high files =
     (if i < length rows then
        (case index rows (i - 1) of
           Inl e \<Rightarrow> Inl e
         | Inr rPrev \<Rightarrow>
        (case index rows i of
           Inl e \<Rightarrow> Inl e
         | Inr rCur \<Rightarrow>
        (let currShift = distanceEarth (lat rPrev) (lon rPrev) (lat rCur) (lon rCur) in
         case getTimeValue (datetime rCur) of
           Inl e \<Rightarrow> Inl e
         | Inr tCur \<Rightarrow>
        (case getTimeValue (datetime rPrev) of
           Inl e \<Rightarrow> Inl e
         | Inr tPrev \<Rightarrow>
        (let timeDiff = real_of_int (difftime tCur tPrev) in
         if timeDiff < 0 then Inl ExitNegativeTimeDiff
         else if currShift = 0 \<or> timeDiff = 0
         then speedLoop distanceEarth rows (i + 1) mapID low i files
         else if currShift * upscalingFactor / timeDiff > movingSpeed then
           (case outputSegment rows mapID low i files of
              Inl e \<Rightarrow> Inl e
            | Inr (mapID', files') \<Rightarrow>
                speedLoop distanceEarth rows (i + 1) mapID' i i files')
         else speedLoop distanceEarth rows (i + 1) mapID low i files)))))
      else Inr (mapID, low, high, files))"
  by pat_completeness auto
termination
  by (relation "measure (\<lambda>(distanceEarth, rows, i, mapID, low, high, files).
        length rows - i)") auto

definition findResidentialAreaBySpeed ::
  "(real \<Rightarrow> real \<Rightarrow> real \<Rightarrow> real \<Rightarrow> real) \<Rightarrow> DataRow list \<Rightarrow> error + SegmentFile list" where
  "findResidentialAreaBySpeed distanceEarth rows =
     (case speedLoop distanceEarth rows 1 1 0 0 [] of
        Inl e \<Rightarrow> Inl e
      | Inr (mapID, low, high, files) \<Rightarrow>
     (case outputSegment rows mapID low (high + 1) files of
        Inl e \<Rightarrow> Inl e
      | Inr (mapID', files') \<Rightarrow> Inr files'))"

section \<open>Predicates of the statements\<close>

text \<open>A calendar time that \<open>getTimeValue\<close> accepts.\<close>

definition convertible :: "tm \<Rightarrow> bool" where
  "convertible t = (mktime t \<noteq> - 1)"

text \<open>
  A list of time intervals as the data model describes it: every interval has its start
  no later than its end, and each interval ends strictly before the next one starts (so the list
  is ascending by start and no two of its intervals overlap or touch).
\<close>

fun sortedSeparated :: "TIMEPAIR list \<Rightarrow> bool" where
  "sortedSeparated [] = True"
| "sortedSeparated [a] = (fst a \<le> snd a)"
| "sortedSeparated (a # b # rest) =
     (fst a \<le> snd a \<and> snd a < fst b \<and> sortedSeparated (b # rest))"

text \<open>Two intervals overlap or touch: each starts no later than the other ends.\<close>

definition overlapOrTouch :: "TIMEPAIR \<Rightarrow> TIMEPAIR \<Rightarrow> bool" where
  "overlapOrTouch a b = (fst a \<le> snd b \<and> fst b \<le> snd a)"

text \<open>
  The segmentation as the specification words it (4.1), on the list of timestamps: the
  current interval starts at \<open>start\<close>, \<open>prev\<close> is the previous event; an event \<open>t\<close> stays
  in the current interval iff \<open>t - start \<le> gap\<close>; otherwise the current interval is
  closed at the previous event and a new one is opened at \<open>t\<close>; the last interval is
  closed at the last event.
\<close>

fun segmentFrom :: "int \<Rightarrow> tm \<Rightarrow> tm \<Rightarrow> tm list \<Rightarrow> TIMEPAIR list" where
  "segmentFrom gap start prev [] = [(start, prev)]"
| "segmentFrom gap start prev (t # ts) =
     (if t - start \<le> gap then segmentFrom gap start t ts
      else (start, prev) # segmentFrom gap t t ts)"

definition segment_spec :: "tm list \<Rightarrow> int \<Rightarrow> TIMEPAIR list" where
  "segment_spec ts gap = (case ts of [] \<Rightarrow> [] | t # rest \<Rightarrow> segmentFrom gap t t rest)"

text \<open>The cell of tag \<open>tg\<close> whose rows have the times \<open>ts\<close>, for the examples.\<close>

definition cellOfTimes :: "string \<Rightarrow> tm list \<Rightarrow> Cell" where
  "cellOfTimes tg ts = \<lparr>Cell_tag = tg, Cell_rowList = map (\<lambda>t. newDataRow t 0 0 tg) ts\<rparr>"

text \<open>A small log for the examples: three rows of cell A, one of B, two of C, unsorted.\<close>

definition exampleLog :: "DataRow list" where
  "exampleLog =
     [newDataRow 100 0 0 ''A'', newDataRow 50 0 0 ''B'', newDataRow 70 0 0 ''A'',
      newDataRow 60 0 0 ''C'', newDataRow 10 0 0 ''A'', newDataRow 90 0 0 ''C'']"

text \<open>
  What the loop of \<open>findResidentialAreaBySpeed\<close> must leave behind for the reads after it
  to be in range: no read past the end happened, and on return \<open>low \<le> high\<close> and \<open>high\<close>
  is an index of the log.
\<close>

definition indicesInRange ::
  "DataRow list \<Rightarrow> error + (int \<times> nat \<times> nat \<times> SegmentFile list) \<Rightarrow> bool" where
  "indicesInRange rows r =
     (case r of
        Inl e \<Rightarrow> e \<noteq> UndefinedIndex
      | Inr (m, l, h, f) \<Rightarrow> l \<le> h \<and> h < length rows)"

text \<open>
  A track for the examples: ten minutes and more at one place, a fast move, twenty
  minutes at another place; and a stand-in for the distance function.
\<close>

definition exampleDistance :: "real \<Rightarrow> real \<Rightarrow> real \<Rightarrow> real \<Rightarrow> real" where
  "exampleDistance lat1 lon1 lat2 lon2 = \<bar>lat2 - lat1\<bar> + \<bar>lon2 - lon1\<bar>"

definition exampleTrack :: "DataRow list" where
  "exampleTrack =
     [newDataRow 0 0 0 ''A'', newDataRow 700 0 0 ''A'',
      newDataRow 800 100 100 ''B'', newDataRow 2000 100 100 ''B'']"

text \<open>
  An area turns the cell down: the merge with the area's intervals returns, and the
  merged list is not shorter than the two lists together.
\<close>

definition rejects :: "TIMEPAIR list \<Rightarrow> TIMEPAIR list \<Rightarrow> bool" where
  "rejects currSegList area =
     (case merge currSegList area of
        Inl e \<Rightarrow> False
      | Inr mergedSegList \<Rightarrow> \<not> length mergedSegList < length currSegList + length area)"

text \<open>
  The area ids are sequential from 1: the counter is one more than the number of areas,
  and every id bound to a cell is the number of an area.
\<close>

definition sequentialIds :: "Areas \<Rightarrow> bool" where
  "sequentialIds st =
     (areaID st = int (length (areaList st)) + 1
      \<and> ran (areaMap st) \<subseteq> {1 .. int (length (areaList st))})"

text \<open>The user that \<open>readFile\<close> builds from \<open>exampleLog\<close>.\<close>

definition exampleUser :: User where
  "exampleUser =
     \<lparr>rowList = [newDataRow 10 0 0 ''A'', newDataRow 50 0 0 ''B'', newDataRow 60 0 0 ''C'',
                  newDataRow 70 0 0 ''A'', newDataRow 90 0 0 ''C'', newDataRow 100 0 0 ''A''],
      cellMap = [''A'' \<mapsto> 0, ''B'' \<mapsto> 1, ''C'' \<mapsto> 2],
      cellList = [cellOfTimes ''A'' [10, 70, 100], cellOfTimes ''B'' [50],
                  cellOfTimes ''C'' [60, 90]],
      cellQueue = [(''A'', 3), (''B'', 1), (''C'', 2)]\<rparr>"

text \<open>
  A log with three cells of three visits each, more than half an hour apart (A and B at
  overlapping times, C elsewhere in time), and a cell D seen once.
\<close>

definition homeLog :: "DataRow list" where
  "homeLog =
     [newDataRow 0 0 0 ''A'', newDataRow 2000 0 0 ''B'', newDataRow 2000 0 0 ''A'',
      newDataRow 10000 0 0 ''C'', newDataRow 5 0 0 ''D'', newDataRow 4000 0 0 ''B'',
      newDataRow 4000 0 0 ''A'', newDataRow 6000 0 0 ''B'', newDataRow 20000 0 0 ''C'',
      newDataRow 30000 0 0 ''C'']"

text \<open>
  \<open>cellMap_\<close> and \<open>cellList_\<close> agree: every mapped tag points at the cell of that tag, and
  every cell's tag is mapped to the cell's index.
\<close>

definition cellsIndexed :: "(string \<Rightarrow> nat option) \<Rightarrow> Cell list \<Rightarrow> bool" where
  "cellsIndexed m cs =
     ((\<forall>tg idx. m tg = Some idx \<longrightarrow> idx < length cs \<and> Cell_tag (cs ! idx) = tg)
      \<and> (\<forall>i < length cs. m (Cell_tag (cs ! i)) = Some i))"

text \<open>
  Every entry of the queue names a cell that \<open>cellMap_\<close> knows, at an index of
  \<open>cellList_\<close>, with at least one row.
\<close>

definition queueIndexed :: "User \<Rightarrow> bool" where
  "queueIndexed u =
     (\<forall>p \<in> set (cellQueue u).
        \<exists>idx. cellMap u (fst p) = Some idx \<and> idx < length (cellList u)
              \<and> Cell_rowList (cellList u ! idx) \<noteq> [])"

section \<open>Properties of merge\<close>

declare merge_loop.simps [simp del]
declare getTimeSegments_loop.simps [simp del]
declare areaLoop.simps [simp del]
declare topKLoop.simps [simp del]
declare speedLoop.simps [simp del]

lemma getTimeValue_convertible: "convertible t \<Longrightarrow> getTimeValue t = Inr t"
  by (simp add: convertible_def getTimeValue_def mktime_def)

lemma place_nonempty:
  assumes "merged \<noteq> []" and "idxTarget < length target"
    and "convertible (snd (last merged))"
    and "convertible (fst (target ! idxTarget))" and "convertible (snd (target ! idxTarget))"
  shows "place target idxTarget merged =
     (if snd (last merged) < fst (target ! idxTarget) then Inr (merged @ [target ! idxTarget])
      else Inr (butlast merged @
             [(fst (last merged), max (snd (last merged)) (snd (target ! idxTarget)))]))"
  using assms
  by (auto simp add: place_def vector_at_def getTimeValue_convertible max_def)

text \<open>
  C1. The claim: for two inputs that are each sorted by start, non-overlapping and
  non-touching, the list \<open>merge\<close> returns has no two intervals that overlap or touch.
  The code at \<open>v1 = [(0,100)]\<close>, \<open>v2 = [(10,20), (30,40)]\<close>: both inputs are such lists,
  \<open>(0,100)\<close> is placed first, the loop takes one more interval after \<open>v1\<close> is used up
  (\<open>(10,20)\<close>, absorbed), and the rest of \<open>v2\<close> is inserted as it is; the result
  \<open>[(0,100), (30,40)]\<close> holds two overlapping intervals.
\<close>

theorem merge_overlapping_tail:
  "sortedSeparated [(0, 100)] \<and> sortedSeparated [(10, 20), (30, 40)]
   \<and> merge [(0, 100)] [(10, 20), (30, 40)] = Inr [(0, 100), (30, 40)]
   \<and> overlapOrTouch (0, 100) (30, 40)
   \<and> \<not> sortedSeparated [(0, 100), (30, 40)]"
  by (simp add: merge_def merge_loop.simps place_def vector_at_def getTimeValue_def mktime_def
      overlapOrTouch_def)

text \<open>
  C6. The claim: \<open>merge\<close> coalesces touching intervals and keeps intervals separated by a
  gap, a newly considered interval being appended as a separate one exactly when the last
  output interval's end is strictly less than its start. The two examples of the claim
  hold on the code: \<open>merge [(10,20)] [(20,30)]\<close> is \<open>[(10,30)]\<close> and
  \<open>merge [(10,19)] [(20,30)]\<close> is the two intervals unchanged. The code at
  \<open>v1 = [(0,50)]\<close>, \<open>v2 = [(10,20), (50,60)]\<close> (both sorted, non-overlapping and
  non-touching): \<open>(0,50)\<close> is placed, the loop takes one more interval after \<open>v1\<close> is
  used up (\<open>(10,20)\<close>, absorbed), and the rest of \<open>v2\<close> is inserted as it is; the result
  \<open>[(0,50), (50,60)]\<close> holds \<open>(50,60)\<close> as a separate interval although the last output
  interval's end, 50, is not strictly less than its start, 50: the touching intervals
  are not coalesced. Only the placing step of the loop (lines 48 to 53, lemma
  \<open>place_nonempty\<close>) follows the rule.
\<close>

theorem merge_touching_tail:
  "merge [(10, 20)] [(20, 30)] = Inr [(10, 30)]
   \<and> merge [(10, 19)] [(20, 30)] = Inr [(10, 19), (20, 30)]
   \<and> sortedSeparated [(0, 50)] \<and> sortedSeparated [(10, 20), (50, 60)]
   \<and> merge [(0, 50)] [(10, 20), (50, 60)] = Inr [(0, 50), (50, 60)]
   \<and> overlapOrTouch (0, 50) (50, 60)
   \<and> \<not> snd (0 :: int, 50 :: int) < fst (50 :: int, 60 :: int)
   \<and> \<not> sortedSeparated [(0, 50), (50, 60)]"
  by (simp add: merge_def merge_loop.simps place_def vector_at_def getTimeValue_def mktime_def
      overlapOrTouch_def)

text \<open>Merging a non-empty list with the empty list gives the list back.\<close>

lemma merge_empty_right: "x \<noteq> [] \<Longrightarrow> merge x [] = Inr x"
proof -
  assume ne: "x \<noteq> []"
  then have len: "0 < length x"
    by simp
  have second: "merge_loop x [] 1 1 [x ! 0] = Inr (1, 1, [x ! 0])"
    by (subst merge_loop.simps) simp
  have first: "merge_loop x [] 0 0 [] = Inr (1, 1, [x ! 0])"
    using len second by (subst merge_loop.simps) (simp add: place_def vector_at_def)
  have tail: "(if 1 < length x then drop 1 x else []) = drop 1 x"
    by simp
  have "x ! 0 # drop 1 x = x"
    using len by (simp add: Cons_nth_drop_Suc)
  then show ?thesis
    unfolding merge_def first by (simp only: tail prod.case sum.case) simp
qed

lemma merge_empty_left: "x \<noteq> [] \<Longrightarrow> merge [] x = Inr x"
proof -
  assume ne: "x \<noteq> []"
  then have len: "0 < length x"
    by simp
  have second: "merge_loop [] x 1 1 [x ! 0] = Inr (1, 1, [x ! 0])"
    by (subst merge_loop.simps) simp
  have first: "merge_loop [] x 0 0 [] = Inr (1, 1, [x ! 0])"
    using len second by (subst merge_loop.simps) (simp add: place_def vector_at_def)
  have tail: "(if 1 < length x then drop 1 x else []) = drop 1 x"
    by simp
  have "x ! 0 # drop 1 x = x"
    using len by (simp add: Cons_nth_drop_Suc)
  then show ?thesis
    unfolding merge_def first by (simp only: tail prod.case sum.case) simp
qed

text \<open>
  C7. The claim: \<open>merge x []\<close> is \<open>x\<close> for every list, \<open>merge x x\<close> is \<open>x\<close> for every sorted
  non-overlapping list, and \<open>merge a b\<close> and \<open>merge b a\<close> give the same set of intervals.
  The code at \<open>a = [(0,5)]\<close>, \<open>b = [(0,1), (2,3)]\<close> (both sorted, non-overlapping and
  non-touching): \<open>merge a b\<close> is \<open>[(0,5)]\<close> and \<open>merge b a\<close> is \<open>[(0,5), (2,3)]\<close>, because
  after one input is used up only one more interval of the other is coalesced; and at
  \<open>x = []\<close> the first iteration reads \<open>v2.at(0)\<close> of an empty vector, which throws.
\<close>

theorem merge_order_matters:
  "sortedSeparated [(0, 5)] \<and> sortedSeparated [(0, 1), (2, 3)]
   \<and> merge [(0, 5)] [(0, 1), (2, 3)] = Inr [(0, 5)]
   \<and> merge [(0, 1), (2, 3)] [(0, 5)] = Inr [(0, 5), (2, 3)]
   \<and> merge [] [] = Inl ThrowOutOfRange"
  by (simp add: merge_def merge_loop.simps place_def vector_at_def getTimeValue_def mktime_def)

section \<open>Properties of Cell::getTimeSegments\<close>

lemma isWithinInterval_ok:
  assumes "low < length (Cell_rowList c)" and "i < length (Cell_rowList c)" and "0 \<le> interval"
    and "\<forall>r \<in> set (Cell_rowList c). convertible (datetime r)"
  shows "isWithinInterval c (int low) (int i) interval =
           Inr (datetime (Cell_rowList c ! i) - datetime (Cell_rowList c ! low) \<le> interval)"
  using assms
  by (simp add: isWithinInterval_def getTimeValue_convertible difftime_def)

lemma getTimeSegments_loop_spec:
  "\<forall>r \<in> set (Cell_rowList c). convertible (datetime r) \<Longrightarrow> 0 \<le> interval \<Longrightarrow>
    low < length (Cell_rowList c) \<Longrightarrow> high < length (Cell_rowList c) \<Longrightarrow>
    segFirst = datetime (Cell_rowList c ! low) \<Longrightarrow>
    \<exists>h f sl. getTimeSegments_loop c interval i low high segFirst segs = Inr (h, f, sl)
      \<and> h < length (Cell_rowList c)
      \<and> sl @ [(f, datetime (Cell_rowList c ! h))] =
          segs @ segmentFrom interval segFirst (datetime (Cell_rowList c ! high))
                   (map datetime (drop i (Cell_rowList c)))"
proof (induction c interval i low high segFirst segs rule: getTimeSegments_loop.induct)
  case (1 c interval i low high segFirst segmentList)
  let ?rows = "Cell_rowList c"
  show ?case
  proof (cases "i < length ?rows")
    case False
    then show ?thesis
      using "1.prems" by (simp add: getTimeSegments_loop.simps)
  next
    case True
    have w: "isWithinInterval c (int low) (int i) interval =
           Inr (datetime (?rows ! i) - datetime (?rows ! low) \<le> interval)"
      using isWithinInterval_ok [OF "1.prems"(3) True "1.prems"(2) "1.prems"(1)] .
    have d: "drop i ?rows = ?rows ! i # drop (Suc i) ?rows"
      using True by (simp add: Cons_nth_drop_Suc)
    show ?thesis
    proof (cases "datetime (?rows ! i) - datetime (?rows ! low) \<le> interval")
      case within: True
      have "\<exists>h f sl. getTimeSegments_loop c interval (i + 1) low i segFirst segmentList = Inr (h, f, sl)
        \<and> h < length ?rows
        \<and> sl @ [(f, datetime (?rows ! h))] =
          segmentList @ segmentFrom interval segFirst (datetime (?rows ! i))
                   (map datetime (drop (i + 1) ?rows))"
        using "1.IH"(2) [OF True w _ "1.prems"(1) "1.prems"(2) "1.prems"(3) True "1.prems"(5)] within
        by simp
      then show ?thesis
        using True w within "1.prems"(5)
        by (subst getTimeSegments_loop.simps) (simp add: d)
    next
      case outside: False
      have ih: "\<exists>h f sl. getTimeSegments_loop c interval (i + 1) i i (datetime (?rows ! i))
            (segmentList @ [(segFirst, datetime (?rows ! high))]) = Inr (h, f, sl)
        \<and> h < length ?rows
        \<and> sl @ [(f, datetime (?rows ! h))] =
          (segmentList @ [(segFirst, datetime (?rows ! high))])
            @ segmentFrom interval (datetime (?rows ! i)) (datetime (?rows ! i))
                   (map datetime (drop (i + 1) ?rows))"
        using "1.IH"(1) [OF True w _ _ "1.prems"(1) "1.prems"(2) True True]
          outside "1.prems"(4)
        by (simp add: index_def)
      then show ?thesis
        using True w outside "1.prems"(4) "1.prems"(5)
        by (subst getTimeSegments_loop.simps) (simp add: d index_def)
    qed
  qed
qed


lemma getTimeSegments_spec:
  assumes "Cell_rowList c \<noteq> []" and "\<forall>r \<in> set (Cell_rowList c). convertible (datetime r)"
    and "0 \<le> interval"
  shows "getTimeSegments c interval = Inr (segment_spec (map datetime (Cell_rowList c)) interval)"
proof -
  let ?rows = "Cell_rowList c"
  from assms(1) obtain r0 rest where rows: "?rows = r0 # rest"
    by (cases ?rows) auto
  have pos: "0 < length ?rows"
    using assms(1) by simp
  from getTimeSegments_loop_spec [OF assms(2) assms(3) pos pos refl, of 0 "[]"]
  obtain h f sl where
    loop: "getTimeSegments_loop c interval 0 0 0 (datetime (?rows ! 0)) [] = Inr (h, f, sl)"
    and h: "h < length ?rows"
    and eq: "sl @ [(f, datetime (?rows ! h))] =
       segmentFrom interval (datetime (?rows ! 0)) (datetime (?rows ! 0)) (map datetime ?rows)"
    by auto
  have "segmentFrom interval (datetime (?rows ! 0)) (datetime (?rows ! 0)) (map datetime ?rows)
        = segment_spec (map datetime ?rows) interval"
    using assms(3) by (simp add: rows segment_spec_def)
  with eq have "sl @ [(f, datetime (?rows ! h))] = segment_spec (map datetime ?rows) interval"
    by simp
  then show ?thesis
    using loop h pos by (simp add: getTimeSegments_def index_def)
qed

lemma getTimeValue_not_convertible: "\<not> convertible t \<Longrightarrow> getTimeValue t = Inl ExitDateNotConverted"
  by (simp add: convertible_def getTimeValue_def mktime_def)

lemma getTimeSegments_loop_exit:
  "0 \<le> interval \<Longrightarrow> low < length (Cell_rowList c) \<Longrightarrow> high < length (Cell_rowList c) \<Longrightarrow>
   convertible (datetime (Cell_rowList c ! low)) \<Longrightarrow>
   \<exists>k. i \<le> k \<and> k < length (Cell_rowList c) \<and> \<not> convertible (datetime (Cell_rowList c ! k)) \<Longrightarrow>
   getTimeSegments_loop c interval i low high segFirst segs = Inl ExitDateNotConverted"
proof (induction "length (Cell_rowList c) - i" arbitrary: i low high segFirst segs)
  case 0
  then show ?case
    by auto
next
  case (Suc n)
  let ?rows = "Cell_rowList c"
  from Suc.prems(5) obtain k where k: "i \<le> k" "k < length ?rows" "\<not> convertible (datetime (?rows ! k))"
    by blast
  then have i: "i < length ?rows"
    by simp
  have n: "n = length ?rows - (i + 1)"
    using Suc.hyps(2) by simp
  show ?case
  proof (cases "convertible (datetime (?rows ! i))")
    case False
    then have "isWithinInterval c (int low) (int i) interval = Inl ExitDateNotConverted"
      using i Suc.prems(1,2)
      by (simp add: isWithinInterval_def getTimeValue_not_convertible)
    then show ?thesis
      using i by (subst getTimeSegments_loop.simps) simp
  next
    case True
    with k have "i \<noteq> k"
      by auto
    with k have later: "\<exists>k. i + 1 \<le> k \<and> k < length ?rows \<and> \<not> convertible (datetime (?rows ! k))"
      by (intro exI [of _ k]) simp
    have w: "isWithinInterval c (int low) (int i) interval =
           Inr (datetime (?rows ! i) - datetime (?rows ! low) \<le> interval)"
      using i Suc.prems(1,2,4) True
      by (simp add: isWithinInterval_def getTimeValue_convertible difftime_def)
    have a: "getTimeSegments_loop c interval (i + 1) low i segFirst segs = Inl ExitDateNotConverted"
      using Suc.prems(1,2,4) i later by (intro Suc.hyps(1) [OF n])
    have b: "getTimeSegments_loop c interval (i + 1) i i sf sg = Inl ExitDateNotConverted" for sf sg
      using Suc.prems(1) i True later by (intro Suc.hyps(1) [OF n])
    show ?thesis
      using i w a b Suc.prems(3)
      by (subst getTimeSegments_loop.simps) (simp add: index_def)
  qed
qed

lemma getTimeSegments_exit:
  assumes "Cell_rowList c \<noteq> []" and "0 \<le> interval"
    and "\<exists>r \<in> set (Cell_rowList c). \<not> convertible (datetime r)"
  shows "getTimeSegments c interval = Inl ExitDateNotConverted"
proof -
  let ?rows = "Cell_rowList c"
  have pos: "0 < length ?rows"
    using assms(1) by simp
  from assms(3) obtain k where k: "k < length ?rows" "\<not> convertible (datetime (?rows ! k))"
    by (auto simp: in_set_conv_nth)
  have "getTimeSegments_loop c interval 0 0 0 (datetime (?rows ! 0)) [] = Inl ExitDateNotConverted"
  proof (cases "convertible (datetime (?rows ! 0))")
    case True
    then show ?thesis
      using assms(2) pos k by (intro getTimeSegments_loop_exit) auto
  next
    case False
    then have "isWithinInterval c (int 0) (int 0) interval = Inl ExitDateNotConverted"
      using pos assms(2) by (simp add: isWithinInterval_def getTimeValue_not_convertible)
    then show ?thesis
      using pos by (subst getTimeSegments_loop.simps) simp
  qed
  then show ?thesis
    using pos by (simp add: getTimeSegments_def index_def)
qed

lemma getTimeSegments_negative:
  assumes "Cell_rowList c \<noteq> []" and "interval < 0"
  shows "getTimeSegments c interval = Inl ExitInvalidInterval"
proof -
  have pos: "0 < length (Cell_rowList c)"
    using assms(1) by simp
  then have "isWithinInterval c (int 0) (int 0) interval = Inl ExitInvalidInterval"
    using assms(2) by (simp add: isWithinInterval_def)
  then have "getTimeSegments_loop c interval 0 0 0 (datetime (Cell_rowList c ! 0)) []
      = Inl ExitInvalidInterval"
    using pos by (subst getTimeSegments_loop.simps) simp
  then show ?thesis
    using pos by (simp add: getTimeSegments_def index_def)
qed

text \<open>
  C3. For a cell with at least one row, convertible times and a threshold \<open>interval \<ge> 0\<close>,
  \<open>Cell::getTimeSegments\<close> returns exactly the segmentation of the specification's words
  (\<open>segment_spec\<close>): event \<open>j\<close> stays in the interval opened at event \<open>low\<close> iff
  \<open>timestamp[j] - timestamp[low] \<le> interval\<close>, measured from the interval's start;
  otherwise the interval is closed at the previous event and a new one opened at \<open>j\<close>;
  the last interval is closed at the last event. A single event gives one interval with
  start equal to end. (The order of the timestamps is not needed for this.) Outside these
  conditions the function stops the program: on a time that cannot be converted, and on a
  negative threshold.
\<close>

theorem getTimeSegments_window:
  "(Cell_rowList c \<noteq> [] \<and> (\<forall>r \<in> set (Cell_rowList c). convertible (datetime r)) \<and> 0 \<le> interval
      \<longrightarrow> getTimeSegments c interval = Inr (segment_spec (map datetime (Cell_rowList c)) interval))
   \<and> (Cell_rowList c = [r] \<and> convertible (datetime r) \<and> 0 \<le> interval
      \<longrightarrow> getTimeSegments c interval = Inr [(datetime r, datetime r)])
   \<and> (Cell_rowList c \<noteq> [] \<and> (\<exists>r \<in> set (Cell_rowList c). \<not> convertible (datetime r)) \<and> 0 \<le> interval
      \<longrightarrow> getTimeSegments c interval = Inl ExitDateNotConverted)
   \<and> (Cell_rowList c \<noteq> [] \<and> interval < 0
      \<longrightarrow> getTimeSegments c interval = Inl ExitInvalidInterval)"
proof (intro conjI impI)
  assume "Cell_rowList c \<noteq> [] \<and> (\<forall>r \<in> set (Cell_rowList c). convertible (datetime r)) \<and> 0 \<le> interval"
  then show "getTimeSegments c interval = Inr (segment_spec (map datetime (Cell_rowList c)) interval)"
    by (simp add: getTimeSegments_spec)
next
  assume a: "Cell_rowList c = [r] \<and> convertible (datetime r) \<and> 0 \<le> interval"
  then have "getTimeSegments c interval = Inr (segment_spec (map datetime (Cell_rowList c)) interval)"
    by (intro getTimeSegments_spec) simp_all
  with a show "getTimeSegments c interval = Inr [(datetime r, datetime r)]"
    by (simp add: segment_spec_def)
next
  assume "Cell_rowList c \<noteq> [] \<and> (\<exists>r \<in> set (Cell_rowList c). \<not> convertible (datetime r)) \<and> 0 \<le> interval"
  then show "getTimeSegments c interval = Inl ExitDateNotConverted"
    by (intro getTimeSegments_exit) simp_all
next
  assume "Cell_rowList c \<noteq> [] \<and> interval < 0"
  then show "getTimeSegments c interval = Inl ExitInvalidInterval"
    by (intro getTimeSegments_negative) simp_all
qed

theorem getTimeSegments_window_witness:
  "getTimeSegments (cellOfTimes ''A'' [0, 100, 200]) 150 = Inr [(0, 100), (200, 200)]
   \<and> getTimeSegments (cellOfTimes ''A'' [7]) 150 = Inr [(7, 7)]
   \<and> getTimeSegments (cellOfTimes ''A'' [0, - 1]) 150 = Inl ExitDateNotConverted
   \<and> getTimeSegments (cellOfTimes ''A'' [7]) (- 5) = Inl ExitInvalidInterval"
proof -
  let ?c = "cellOfTimes ''A'' [0, 100, 200]"
  let ?d = "cellOfTimes ''A'' [7]"
  have "Cell_rowList ?c \<noteq> [] \<and> (\<forall>r \<in> set (Cell_rowList ?c). convertible (datetime r))
          \<and> (0::int) \<le> 150"
    by (simp add: cellOfTimes_def newDataRow_def convertible_def mktime_def)
  with getTimeSegments_window [where c = ?c and interval = 150]
  have "getTimeSegments ?c 150 = Inr (segment_spec (map datetime (Cell_rowList ?c)) 150)"
    by blast
  then have first: "getTimeSegments ?c 150 = Inr [(0, 100), (200, 200)]"
    by (simp add: cellOfTimes_def newDataRow_def segment_spec_def)
  have "Cell_rowList ?d = [newDataRow 7 0 0 ''A''] \<and> convertible (datetime (newDataRow 7 0 0 ''A''))
          \<and> (0::int) \<le> 150"
    by (simp add: cellOfTimes_def newDataRow_def convertible_def mktime_def)
  with getTimeSegments_window [where c = ?d and r = "newDataRow 7 0 0 ''A''" and interval = 150]
  have "getTimeSegments ?d 150 =
          Inr [(datetime (newDataRow 7 0 0 ''A''), datetime (newDataRow 7 0 0 ''A''))]"
    by blast
  then have single: "getTimeSegments ?d 150 = Inr [(7, 7)]"
    by (simp add: newDataRow_def)
  let ?e = "cellOfTimes ''A'' [0, - 1]"
  have "Cell_rowList ?e \<noteq> [] \<and> (\<exists>r \<in> set (Cell_rowList ?e). \<not> convertible (datetime r))
          \<and> (0::int) \<le> 150"
    by (simp add: cellOfTimes_def newDataRow_def convertible_def mktime_def)
  with getTimeSegments_window [where c = ?e and interval = 150]
  have stop: "getTimeSegments ?e 150 = Inl ExitDateNotConverted"
    by blast
  have "Cell_rowList ?d \<noteq> [] \<and> (- 5 :: int) < 0"
    by (simp add: cellOfTimes_def)
  with getTimeSegments_window [where c = ?d and interval = "- 5"]
  have "getTimeSegments ?d (- 5) = Inl ExitInvalidInterval"
    by blast
  with first single stop show ?thesis
    by simp
qed

subsection \<open>The specification's segmentation on sorted timestamps\<close>

lemma segmentFrom_nonempty: "segmentFrom gap start prev ts \<noteq> []"
  by (induction ts arbitrary: start prev) auto

lemma segmentFrom_hd:
  "sorted (prev # ts) \<Longrightarrow>
   fst (hd (segmentFrom gap start prev ts)) = start \<and> prev \<le> snd (hd (segmentFrom gap start prev ts))"
proof (induction ts arbitrary: prev)
  case Nil
  then show ?case by simp
next
  case (Cons t ts)
  then show ?case by (auto intro: order_trans)
qed

lemma sortedSeparated_Cons:
  "xs \<noteq> [] \<Longrightarrow> sortedSeparated (a # xs) = (fst a \<le> snd a \<and> snd a < fst (hd xs) \<and> sortedSeparated xs)"
  by (cases xs) auto

lemma segmentFrom_separated:
  "sorted (prev # ts) \<Longrightarrow> start \<le> prev \<Longrightarrow> prev - start \<le> gap \<Longrightarrow>
   sortedSeparated (segmentFrom gap start prev ts)"
proof (induction ts arbitrary: start prev)
  case Nil
  then show ?case by simp
next
  case (Cons t ts)
  show ?case
  proof (cases "t - start \<le> gap")
    case True
    have "sortedSeparated (segmentFrom gap start t ts)"
      using Cons.prems True by (intro Cons.IH) auto
    with True show ?thesis by simp
  next
    case False
    have gap0: "0 \<le> gap" using Cons.prems by linarith
    have "sortedSeparated (segmentFrom gap t t ts)"
      using Cons.prems gap0 by (intro Cons.IH) auto
    moreover have "fst (hd (segmentFrom gap t t ts)) = t"
      using segmentFrom_hd [of t ts gap t] Cons.prems by simp
    moreover have "prev < t"
      using False Cons.prems by linarith
    ultimately show ?thesis
      using False Cons.prems by (simp add: sortedSeparated_Cons segmentFrom_nonempty)
  qed
qed

lemma segmentFrom_covers:
  "sorted (prev # ts) \<Longrightarrow> start \<le> prev \<Longrightarrow> t \<in> set (prev # ts) \<Longrightarrow>
   \<exists>p \<in> set (segmentFrom gap start prev ts). fst p \<le> t \<and> t \<le> snd p"
proof (induction ts arbitrary: start prev)
  case Nil
  then show ?case by simp
next
  case (Cons t1 ts)
  show ?case
  proof (cases "t1 - start \<le> gap")
    case True
    show ?thesis
    proof (cases "t = prev")
      case True
      let ?segs = "segmentFrom gap start t1 ts"
      have "fst (hd ?segs) = start \<and> t1 \<le> snd (hd ?segs)"
        using segmentFrom_hd [of t1 ts gap start] Cons.prems by simp
      moreover have "hd ?segs \<in> set ?segs"
        by (simp add: segmentFrom_nonempty)
      moreover have "prev \<le> t1" using Cons.prems by simp
      ultimately show ?thesis
        using \<open>t1 - start \<le> gap\<close> True Cons.prems(2)
        by (intro bexI [of _ "hd ?segs"]) auto
    next
      case False
      then have "t \<in> set (t1 # ts)" using Cons.prems by auto
      moreover have "start \<le> t1" using Cons.prems by auto
      ultimately have "\<exists>p \<in> set (segmentFrom gap start t1 ts). fst p \<le> t \<and> t \<le> snd p"
        using Cons.prems by (intro Cons.IH) auto
      with \<open>t1 - start \<le> gap\<close> show ?thesis by simp
    qed
  next
    case False
    show ?thesis
    proof (cases "t = prev")
      case True
      with False Cons.prems show ?thesis by simp
    next
      case nprev: False
      then have "t \<in> set (t1 # ts)" using Cons.prems by auto
      then have "\<exists>p \<in> set (segmentFrom gap t1 t1 ts). fst p \<le> t \<and> t \<le> snd p"
        using Cons.prems by (intro Cons.IH) auto
      with False show ?thesis by auto
    qed
  qed
qed

lemma sortedSeparated_nth_less:
  "sortedSeparated xs \<Longrightarrow> i < j \<Longrightarrow> j < length xs \<Longrightarrow> snd (xs ! i) < fst (xs ! j)"
proof (induction xs arbitrary: i j rule: sortedSeparated.induct)
  case 1
  then show ?case by simp
next
  case (2 a)
  then show ?case by simp
next
  case (3 a b rest)
  show ?case
  proof (cases i)
    case 0
    show ?thesis
    proof (cases "j = 1")
      case True
      with 0 "3.prems" show ?thesis by simp
    next
      case False
      then obtain j' where j: "j = Suc j'" and "0 < j'"
        using "3.prems" 0 by (cases j) auto
      then have "snd ((b # rest) ! 0) < fst ((b # rest) ! j')"
        using "3.prems" by (intro "3.IH") auto
      moreover have "snd a < fst b" "fst b \<le> snd b"
        using "3.prems"(1) by (cases rest; simp)+
      ultimately show ?thesis
        using 0 j by simp
    qed
  next
    case (Suc i')
    then obtain j' where j: "j = Suc j'" using "3.prems" by (cases j) auto
    have "snd ((b # rest) ! i') < fst ((b # rest) ! j')"
      using "3.prems" Suc j by (intro "3.IH") auto
    then show ?thesis using Suc j by simp
  qed
qed

lemma sortedSeparated_valid: "sortedSeparated xs \<Longrightarrow> p \<in> set xs \<Longrightarrow> fst p \<le> snd p"
  by (induction xs rule: sortedSeparated.induct) auto

lemma sortedSeparated_sorted: "sortedSeparated xs \<Longrightarrow> sorted (map fst xs)"
proof -
  assume s: "sortedSeparated xs"
  have "fst (xs ! i) \<le> fst (xs ! j)" if "i < j" "j < length xs" for i j
  proof -
    have "fst (xs ! i) \<le> snd (xs ! i)"
      using sortedSeparated_valid [OF s, of "xs ! i"] that by simp
    moreover have "snd (xs ! i) < fst (xs ! j)"
      using sortedSeparated_nth_less [OF s that] .
    ultimately show ?thesis by simp
  qed
  then show ?thesis
    by (simp add: sorted_iff_nth_mono_less)
qed


text \<open>
  C2. For a cell with at least one row, rows ascending by time, convertible times and a
  threshold \<open>interval \<ge> 0\<close>, \<open>Cell::getTimeSegments\<close> returns a list of intervals that is
  ascending by start (each interval even ends strictly before the next starts), each
  interval has its end no earlier than its start, and the time of every row lies in
  exactly one of the returned intervals.
\<close>

theorem getTimeSegments_cover:
  assumes "Cell_rowList c \<noteq> []"
    and "sorted (map datetime (Cell_rowList c))"
    and "\<forall>r \<in> set (Cell_rowList c). convertible (datetime r)"
    and "0 \<le> interval"
  shows "\<exists>segs. getTimeSegments c interval = Inr segs
           \<and> sorted (map fst segs)
           \<and> sortedSeparated segs
           \<and> (\<forall>p \<in> set segs. fst p \<le> snd p)
           \<and> (\<forall>r \<in> set (Cell_rowList c).
                 \<exists>!k. k < length segs \<and> fst (segs ! k) \<le> datetime r \<and> datetime r \<le> snd (segs ! k))"
proof -
  let ?rows = "Cell_rowList c"
  let ?segs = "segment_spec (map datetime ?rows) interval"
  from assms(1) obtain r0 rest where rows: "?rows = r0 # rest"
    by (cases ?rows) auto
  have segs: "?segs = segmentFrom interval (datetime r0) (datetime r0) (map datetime rest)"
    by (simp add: rows segment_spec_def)
  have srt: "sorted (datetime r0 # map datetime rest)"
    using assms(2) by (simp add: rows)
  have sep: "sortedSeparated ?segs"
    unfolding segs using srt assms(4) by (intro segmentFrom_separated) simp_all
  have run: "getTimeSegments c interval = Inr ?segs"
    using assms by (intro getTimeSegments_spec) simp_all
  have cover: "\<exists>!k. k < length ?segs \<and> fst (?segs ! k) \<le> datetime r \<and> datetime r \<le> snd (?segs ! k)"
    if r: "r \<in> set ?rows" for r
  proof -
    have "datetime r \<in> set (datetime r0 # map datetime rest)"
      using r by (auto simp: rows)
    from segmentFrom_covers [OF srt order_refl this, of interval]
    obtain p where p: "p \<in> set ?segs" "fst p \<le> datetime r" "datetime r \<le> snd p"
      unfolding segs by blast
    then obtain k where k: "k < length ?segs" "?segs ! k = p"
      by (auto simp: in_set_conv_nth)
    show ?thesis
    proof (rule ex1I [of _ k])
      show "k < length ?segs \<and> fst (?segs ! k) \<le> datetime r \<and> datetime r \<le> snd (?segs ! k)"
        using k p by simp
    next
      fix j
      assume j: "j < length ?segs \<and> fst (?segs ! j) \<le> datetime r \<and> datetime r \<le> snd (?segs ! j)"
      show "j = k"
      proof (rule ccontr)
        assume "j \<noteq> k"
        then consider "j < k" | "k < j" by linarith
        then show False
        proof cases
          case 1
          from sortedSeparated_nth_less [OF sep 1 k(1)] j k p show False by simp
        next
          case 2
          from sortedSeparated_nth_less [OF sep 2] j k p show False by simp
        qed
      qed
    qed
  qed
  show ?thesis
  proof (intro exI [of _ ?segs] conjI ballI)
    show "getTimeSegments c interval = Inr ?segs" by (rule run)
    show "sorted (map fst ?segs)" by (rule sortedSeparated_sorted [OF sep])
    show "sortedSeparated ?segs" by (rule sep)
    show "fst p \<le> snd p" if "p \<in> set ?segs" for p
      using sortedSeparated_valid [OF sep that] .
    show "\<exists>!k. k < length ?segs \<and> fst (?segs ! k) \<le> datetime r \<and> datetime r \<le> snd (?segs ! k)"
      if "r \<in> set ?rows" for r
      using cover [OF that] .
  qed
qed

theorem getTimeSegments_cover_witness:
  "\<exists>segs. getTimeSegments (cellOfTimes ''A'' [0, 40, 80, 120, 160, 400]) 180 = Inr segs
     \<and> segs = [(0, 160), (400, 400)]
     \<and> sorted (map fst segs)
     \<and> sortedSeparated segs
     \<and> (\<forall>p \<in> set segs. fst p \<le> snd p)
     \<and> (\<forall>r \<in> set (Cell_rowList (cellOfTimes ''A'' [0, 40, 80, 120, 160, 400])).
           \<exists>!k. k < length segs \<and> fst (segs ! k) \<le> datetime r \<and> datetime r \<le> snd (segs ! k))"
proof -
  let ?c = "cellOfTimes ''A'' [0, 40, 80, 120, 160, 400]"
  have run: "getTimeSegments ?c 180 = Inr [(0, 160), (400, 400)]"
    by (simp add: cellOfTimes_def getTimeSegments_def getTimeSegments_loop.simps
        isWithinInterval_def index_def getTimeValue_def mktime_def difftime_def newDataRow_def)
  have "Cell_rowList ?c \<noteq> []"
    by (simp add: cellOfTimes_def)
  moreover have "sorted (map datetime (Cell_rowList ?c))"
    by (simp add: cellOfTimes_def newDataRow_def)
  moreover have "\<forall>r \<in> set (Cell_rowList ?c). convertible (datetime r)"
    by (simp add: cellOfTimes_def newDataRow_def convertible_def mktime_def)
  ultimately show ?thesis
    using getTimeSegments_cover [of ?c 180] run by auto
qed

section \<open>The activity ranking and readFile\<close>

lemma pq_greatest_mem: "pq_greatest x ys \<in> set (x # ys)"
  by (induction ys arbitrary: x) auto

lemma pq_greatest_ge: "z \<in> set (x # ys) \<Longrightarrow> snd z \<le> snd (pq_greatest x ys)"
proof (induction ys arbitrary: x z)
  case Nil
  then show ?case by simp
next
  case (Cons y ys)
  have mono: "snd x \<le> snd (pq_greatest (if compareBySecondValue x y then y else x) ys)"
  proof -
    have "snd x \<le> snd (if compareBySecondValue x y then y else x)"
      by (simp add: compareBySecondValue_def)
    also have "\<dots> \<le> snd (pq_greatest (if compareBySecondValue x y then y else x) ys)"
      using Cons.IH [of "if compareBySecondValue x y then y else x"
          "if compareBySecondValue x y then y else x"] by simp
    finally show ?thesis .
  qed
  have monoy: "snd y \<le> snd (pq_greatest (if compareBySecondValue x y then y else x) ys)"
  proof -
    have "snd y \<le> snd (if compareBySecondValue x y then y else x)"
      by (simp add: compareBySecondValue_def)
    also have "\<dots> \<le> snd (pq_greatest (if compareBySecondValue x y then y else x) ys)"
      using Cons.IH [of "if compareBySecondValue x y then y else x"
          "if compareBySecondValue x y then y else x"] by simp
    finally show ?thesis .
  qed
  from Cons.prems consider "z = x" | "z = y" | "z \<in> set ys" by auto
  then show ?case
  proof cases
    case 1 with mono show ?thesis by simp
  next
    case 2 with monoy show ?thesis by simp
  next
    case 3
    then show ?thesis
      using Cons.IH [of z "if compareBySecondValue x y then y else x"] by simp
  qed
qed

lemma pq_top_mem: "q \<noteq> [] \<Longrightarrow> pq_top q \<in> set q"
  using pq_greatest_mem [of "hd q" "tl q"] by (cases q) (simp_all add: pq_top_def)

lemma pq_top_ge: "z \<in> set q \<Longrightarrow> snd z \<le> snd (pq_top q)"
  using pq_greatest_ge [of z "hd q" "tl q"] by (cases q) (simp_all add: pq_top_def)

lemma pq_pop_mset: "q \<noteq> [] \<Longrightarrow> add_mset (pq_top q) (mset (pq_pop q)) = mset q"
  by (simp add: pq_pop_def pq_top_mem)

lemma pq_pop_length: "q \<noteq> [] \<Longrightarrow> Suc (length (pq_pop q)) = length q"
  using pq_pop_mset [of q] by (metis size_add_mset size_mset)

lemma pq_drain_fuel_mset: "length q \<le> n \<Longrightarrow> mset (pq_drain_fuel n q) = mset q"
proof (induction n arbitrary: q)
  case 0
  then show ?case by simp
next
  case (Suc n)
  show ?case
  proof (cases "q = []")
    case True
    then show ?thesis by (simp add: pq_empty_def)
  next
    case False
    then have "length (pq_pop q) \<le> n"
      using pq_pop_length [of q] Suc.prems by simp
    then have "mset (pq_drain_fuel n (pq_pop q)) = mset (pq_pop q)"
      by (rule Suc.IH)
    then show ?thesis
      using False pq_pop_mset [of q] by (simp add: pq_empty_def)
  qed
qed

lemma pq_drain_fuel_sorted:
  "length q \<le> n \<Longrightarrow> sorted_wrt (\<lambda>a b. snd b \<le> snd a) (pq_drain_fuel n q)"
proof (induction n arbitrary: q)
  case 0
  then show ?case by simp
next
  case (Suc n)
  show ?case
  proof (cases "q = []")
    case True
    then show ?thesis by (simp add: pq_empty_def)
  next
    case False
    then have len: "length (pq_pop q) \<le> n"
      using pq_pop_length [of q] Suc.prems by simp
    have "set (pq_drain_fuel n (pq_pop q)) = set (pq_pop q)"
      using pq_drain_fuel_mset [OF len] by (metis set_mset_mset)
    also have "\<dots> \<subseteq> set q"
      by (simp add: pq_pop_def set_remove1_subset)
    finally have "\<forall>z \<in> set (pq_drain_fuel n (pq_pop q)). snd z \<le> snd (pq_top q)"
      using pq_top_ge by blast
    then show ?thesis
      using False Suc.IH [OF len] by (simp add: pq_empty_def)
  qed
qed

lemma filter_key_distinct:
  "distinct (map f xs) \<Longrightarrow> k \<in> set xs \<Longrightarrow> filter (\<lambda>x. f k = f x) xs = [k]"
proof (induction xs)
  case Nil
  then show ?case by simp
next
  case (Cons a xs)
  show ?case
  proof (cases "k = a")
    case True
    have "filter (\<lambda>x. f a = f x) xs = []"
      using Cons.prems(1) by (auto simp: filter_empty_conv)
    with True show ?thesis by simp
  next
    case False
    then have "k \<in> set xs" using Cons.prems by simp
    then have "f k \<noteq> f a" using Cons.prems(1) by (auto simp: image_iff)
    with Cons \<open>k \<in> set xs\<close> show ?thesis by simp
  qed
qed

lemma drains_mset: "drains q out \<Longrightarrow> mset out = mset q"
  by (induction rule: drains.induct) simp_all

lemma drains_descending: "drains q out \<Longrightarrow> sorted_wrt (\<lambda>a b. snd b \<le> snd a) out"
proof (induction rule: drains.induct)
  case drains_empty
  then show ?case by simp
next
  case (drains_pop x q out)
  have "set out = set (remove1 x q)"
    using drains_mset [OF drains_pop.hyps(3)] by (metis set_mset_mset)
  also have "\<dots> \<subseteq> set q"
    by (rule set_remove1_subset)
  finally have "\<forall>z \<in> set out. snd z \<le> snd x"
    using drains_pop.hyps(2) by (auto simp: compareBySecondValue_def not_less)
  with drains_pop.IH show ?case
    by simp
qed

lemma drains_pq_drain_fuel: "length q = n \<Longrightarrow> drains q (pq_drain_fuel n q)"
proof (induction n arbitrary: q)
  case 0
  then show ?case
    by (simp add: drains_empty)
next
  case (Suc n)
  then have ne: "q \<noteq> []"
    by auto
  have "length (pq_pop q) = n"
    using pq_pop_length [OF ne] Suc.prems by simp
  then have "drains (remove1 (pq_top q) q) (pq_drain_fuel n (pq_pop q))"
    using Suc.IH [of "pq_pop q"] by (simp add: pq_pop_def)
  moreover have "\<forall>y \<in> set q. \<not> compareBySecondValue (pq_top q) y"
    using pq_top_ge [of _ q] by (auto simp: compareBySecondValue_def not_less)
  ultimately have "drains q (pq_top q # pq_drain_fuel n (pq_pop q))"
    using pq_top_mem [OF ne] by (intro drains_pop)
  with ne show ?case
    by (simp add: pq_empty_def)
qed

lemma descending_unique:
  assumes "mset out = mset q" and "sorted_wrt (\<lambda>a b. snd b \<le> snd a) out"
    and "distinct (map snd q)"
  shows "out = rev (sort_key snd q)"
proof -
  let ?d = "rev out"
  have ms: "mset ?d = mset q"
    using assms(1) by simp
  have srt: "sorted (map snd ?d)"
    using assms(2) by (simp add: sorted_wrt_rev sorted_map)
  have "mset (map snd ?d) = mset (map snd q)"
    using ms by (metis mset_map)
  then have dd: "distinct (map snd ?d)"
    using assms(3) by (metis mset_eq_imp_distinct_iff)
  have "sort_key snd q = ?d"
  proof (rule properties_for_sort_key [OF ms _ srt])
    fix k assume k: "k \<in> set ?d"
    then have "k \<in> set q" using ms by (metis set_mset_mset)
    then have "filter (\<lambda>x. snd k = snd x) q = [k]"
      using assms(3) by (rule filter_key_distinct [rotated])
    moreover have "filter (\<lambda>x. snd k = snd x) ?d = [k]"
      using dd k by (rule filter_key_distinct)
    ultimately show "filter (\<lambda>x. snd k = snd x) ?d = filter (\<lambda>x. snd k = snd x) q"
      by simp
  qed
  then show ?thesis
    by (metis rev_rev_ident)
qed

lemma insertByTime_mset: "insertByTime x ys = Inr zs \<Longrightarrow> mset zs = add_mset x (mset ys)"
proof (induction ys arbitrary: zs)
  case Nil
  then show ?case by auto
next
  case (Cons y ys)
  then show ?case
    by (auto split: sum.splits if_splits)
qed

lemma sortByTime_mset: "sortByTime xs = Inr ys \<Longrightarrow> mset ys = mset xs"
proof (induction xs arbitrary: ys)
  case Nil
  then show ?case by simp
next
  case (Cons x xs)
  then show ?case
    by (auto split: sum.splits dest: insertByTime_mset)
qed

lemma sortByTime_length: "sortByTime xs = Inr ys \<Longrightarrow> length ys = length xs"
  by (metis sortByTime_mset size_mset)

lemma sortByTime_nonempty: "sortByTime xs = Inr ys \<Longrightarrow> xs \<noteq> [] \<Longrightarrow> ys \<noteq> []"
  using sortByTime_length by fastforce

lemma rankAndSortCells_queue:
  "rankAndSortCells cs q = Inr (cs', q') \<Longrightarrow>
     q' = q @ map (\<lambda>c. (Cell_tag c, int (length (Cell_rowList c)))) cs'"
proof (induction cs arbitrary: q cs' q')
  case Nil
  then show ?case by simp
next
  case (Cons c cs)
  from Cons.prems obtain rows cs1 where
    rows: "sortByTime (Cell_rowList c) = Inr rows"
    and rest: "rankAndSortCells cs (pq_push q (getName c, numConnections c)) = Inr (cs1, q')"
    and cs': "cs' = c\<lparr>Cell_rowList := rows\<rparr> # cs1"
    by (auto simp: Let_def split: sum.splits)
  from Cons.IH [OF rest] sortByTime_length [OF rows] show ?case
    by (simp add: cs' pq_push_def getName_def numConnections_def)
qed

lemma rankAndSortCells_nonempty:
  "rankAndSortCells cs q = Inr (cs', q') \<Longrightarrow> \<forall>c \<in> set cs. Cell_rowList c \<noteq> [] \<Longrightarrow>
     \<forall>c \<in> set cs'. Cell_rowList c \<noteq> []"
proof (induction cs arbitrary: q cs' q')
  case Nil
  then show ?case by simp
next
  case (Cons c cs)
  from Cons.prems(1) obtain rows cs1 where
    rows: "sortByTime (Cell_rowList c) = Inr rows"
    and rest: "rankAndSortCells cs (pq_push q (getName c, numConnections c)) = Inr (cs1, q')"
    and cs': "cs' = c\<lparr>Cell_rowList := rows\<rparr> # cs1"
    by (auto simp: Let_def split: sum.splits)
  have "rows \<noteq> []"
    using sortByTime_nonempty [OF rows] Cons.prems(2) by simp
  moreover have "\<forall>c \<in> set cs1. Cell_rowList c \<noteq> []"
    using Cons.IH [OF rest] Cons.prems(2) by simp
  ultimately show ?case
    by (simp add: cs')
qed

lemma readRow_queue: "readRow u d = Inr u' \<Longrightarrow> cellQueue u' = cellQueue u"
  by (auto simp: readRow_def Let_def split: option.splits sum.splits)

lemma readRows_queue: "readRows u ds = Inr u' \<Longrightarrow> cellQueue u' = cellQueue u"
proof (induction ds arbitrary: u)
  case Nil
  then show ?case by simp
next
  case (Cons d ds)
  then show ?case
    by (auto split: sum.splits dest: readRow_queue)
qed

lemma readRow_nonempty:
  assumes "readRow u d = Inr u'" and "\<forall>c \<in> set (cellList u). Cell_rowList c \<noteq> []"
  shows "\<forall>c \<in> set (cellList u'). Cell_rowList c \<noteq> []"
proof (cases "cellMap u (tag d)")
  case None
  with assms show ?thesis
    by (auto simp: readRow_def Let_def newCell_def)
next
  case (Some idx)
  with assms(1) obtain c where c: "index (cellList u) idx = Inr c"
    and u': "u' = u\<lparr>rowList := rowList u @ [d], cellList := (cellList u)[idx := addDataRow c d]\<rparr>"
    by (auto simp: readRow_def Let_def split: sum.splits)
  have "set (cellList u') \<subseteq> insert (addDataRow c d) (set (cellList u))"
    by (simp add: u' set_update_subset_insert)
  moreover have "Cell_rowList (addDataRow c d) \<noteq> []"
    by (simp add: addDataRow_def)
  ultimately show ?thesis
    using assms(2) by auto
qed

lemma readRows_nonempty:
  "readRows u ds = Inr u' \<Longrightarrow> \<forall>c \<in> set (cellList u). Cell_rowList c \<noteq> [] \<Longrightarrow>
     \<forall>c \<in> set (cellList u'). Cell_rowList c \<noteq> []"
proof (induction ds arbitrary: u)
  case Nil
  then show ?case by simp
next
  case (Cons d ds)
  from Cons.prems(1) obtain u1 where u1: "readRow u d = Inr u1" and rest: "readRows u1 ds = Inr u'"
    by (auto split: sum.splits)
  from Cons.IH [OF rest readRow_nonempty [OF u1 Cons.prems(2)]] show ?case .
qed

lemma readFile_parts:
  assumes "readFile records = Inr u"
  obtains u0 rows where "readRows emptyUser records = Inr u0"
    and "rankAndSortCells (cellList u0) (cellQueue u0) = Inr (cellList u, cellQueue u)"
    and "sortByTime (rowList u0) = Inr rows"
    and "u = u0\<lparr>cellList := cellList u, cellQueue := cellQueue u, rowList := rows\<rparr>"
  using assms by (auto simp: readFile_def split: sum.splits)

lemma readFile_queue:
  assumes "readFile records = Inr u"
  shows "cellQueue u = map (\<lambda>c. (Cell_tag c, int (length (Cell_rowList c)))) (cellList u)"
proof -
  from readFile_parts [OF assms] obtain u0 where
    u0: "readRows emptyUser records = Inr u0"
    and rank: "rankAndSortCells (cellList u0) (cellQueue u0) = Inr (cellList u, cellQueue u)"
    by metis
  have "cellQueue u0 = []"
    using readRows_queue [OF u0] by (simp add: emptyUser_def)
  with rankAndSortCells_queue [OF rank] show ?thesis
    by simp
qed

lemma readFile_nonempty:
  assumes "readFile records = Inr u"
  shows "\<forall>c \<in> set (cellList u). Cell_rowList c \<noteq> []"
proof -
  from readFile_parts [OF assms] obtain u0 where
    u0: "readRows emptyUser records = Inr u0"
    and rank: "rankAndSortCells (cellList u0) (cellQueue u0) = Inr (cellList u, cellQueue u)"
    by metis
  have "\<forall>c \<in> set (cellList u0). Cell_rowList c \<noteq> []"
    using readRows_nonempty [OF u0] by (simp add: emptyUser_def)
  with rankAndSortCells_nonempty [OF rank] show ?thesis
    by simp
qed

lemma getTimeSegments_loop_defined:
  "high < length (Cell_rowList c) \<Longrightarrow>
     getTimeSegments_loop c interval i low high segFirst segs \<noteq> Inl UndefinedIndex
     \<and> (\<forall>h f sl. getTimeSegments_loop c interval i low high segFirst segs = Inr (h, f, sl)
            \<longrightarrow> h < length (Cell_rowList c))"
proof (induction c interval i low high segFirst segs rule: getTimeSegments_loop.induct)
  case (1 c interval i low high segFirst segmentList)
  show ?case
  proof (cases "i < length (Cell_rowList c)")
    case False
    then show ?thesis
      using "1.prems" by (simp add: getTimeSegments_loop.simps)
  next
    case True
    show ?thesis
    proof (cases "isWithinInterval c (int low) (int i) interval")
      case (Inl e)
      then have "e \<noteq> UndefinedIndex"
        by (auto simp: isWithinInterval_def getTimeValue_def Let_def split: if_splits sum.splits)
      with Inl True show ?thesis
        by (subst getTimeSegments_loop.simps, subst (2) getTimeSegments_loop.simps) simp
    next
      case (Inr w)
      show ?thesis
      proof (cases w)
        case True
        from "1.IH"(2) [OF \<open>i < length (Cell_rowList c)\<close> Inr _ \<open>i < length (Cell_rowList c)\<close>] True
        show ?thesis
          using Inr \<open>i < length (Cell_rowList c)\<close>
          by (subst getTimeSegments_loop.simps, subst (2) getTimeSegments_loop.simps) simp
      next
        case False
        have idx: "index (Cell_rowList c) high = Inr (Cell_rowList c ! high)"
          using "1.prems" by (simp add: index_def)
        from "1.IH"(1) [OF \<open>i < length (Cell_rowList c)\<close> Inr _ idx \<open>i < length (Cell_rowList c)\<close>] False
        show ?thesis
          using Inr \<open>i < length (Cell_rowList c)\<close> idx
          by (subst getTimeSegments_loop.simps, subst (2) getTimeSegments_loop.simps) simp
      qed
    qed
  qed
qed

lemma getTimeSegments_defined:
  assumes "Cell_rowList c \<noteq> []"
  shows "getTimeSegments c interval \<noteq> Inl UndefinedIndex"
proof -
  have pos: "0 < length (Cell_rowList c)"
    using assms by simp
  from getTimeSegments_loop_defined [OF pos, of interval 0 0 "datetime (Cell_rowList c ! 0)" "[]"]
  show ?thesis
    using pos by (auto simp: getTimeSegments_def index_def split: sum.splits)
qed

lemma three_cells_sorted:
  fixes q :: "PAIR list"
  assumes "mset q = mset [(''A'', 50), (''B'', 30), (''C'', 80)]"
  shows "distinct (map snd q) \<and> rev (sort_key snd q) = [(''C'', 80), (''A'', 50), (''B'', 30)]"
proof -
  let ?ys = "[(''B'', 30), (''A'', 50), (''C'', 80)] :: PAIR list"
  have "mset (map snd q) = mset (map snd [(''A'', 50 :: int), (''B'', 30), (''C'', 80)])"
    using assms by (metis mset_map)
  moreover have "distinct (map snd [(''A'', 50 :: int), (''B'', 30), (''C'', 80)])"
    by simp
  ultimately have dq: "distinct (map snd q)"
    by (metis mset_eq_imp_distinct_iff)
  have ms: "mset ?ys = mset q"
    using assms by simp
  have "sort_key snd q = ?ys"
  proof (rule properties_for_sort_key [OF ms])
    show "sorted (map snd ?ys)" by simp
  next
    fix k assume k: "k \<in> set ?ys"
    then have "k \<in> set q" using ms by (metis set_mset_mset)
    then have "filter (\<lambda>x. snd k = snd x) q = [k]"
      using dq by (rule filter_key_distinct [rotated])
    moreover have "filter (\<lambda>x. snd k = snd x) ?ys = [k]"
      using k by (intro filter_key_distinct) simp_all
    ultimately show "filter (\<lambda>x. snd k = snd x) ?ys = filter (\<lambda>x. snd k = snd x) q"
      by simp
  qed
  with dq show ?thesis
    by simp
qed

text \<open>
  C8. Popping the queue until it is empty gives the cells in descending order of their
  count, each pushed element once, whichever element the heap returns among equal
  counts (\<open>drains\<close>; \<open>pq_drain\<close> is one such order). When the counts are distinct the
  order is the descending order of the counts, whatever the order of the pushes; for the
  counts A 50, B 30, C 80 the tags come out as C, A, B. The queue \<open>readFile\<close> builds
  holds, for every cell, its tag with the number of its rows.
\<close>

theorem activity_ranking_descending:
  "drains q (pq_drain q)
   \<and> (drains q out \<longrightarrow> sorted_wrt (\<lambda>a b. snd b \<le> snd a) out \<and> mset out = mset q)
   \<and> (drains q out \<and> distinct (map snd q) \<longrightarrow> out = rev (sort_key snd q))
   \<and> (drains q out \<and> mset q = mset [(''A'', 50), (''B'', 30), (''C'', 80)]
        \<longrightarrow> map fst out = [''C'', ''A'', ''B''])
   \<and> (readFile records = Inr u
        \<longrightarrow> cellQueue u = map (\<lambda>c. (Cell_tag c, int (length (Cell_rowList c)))) (cellList u))"
proof (intro conjI impI)
  show "drains q (pq_drain q)"
    by (simp add: pq_drain_def drains_pq_drain_fuel)
  show "sorted_wrt (\<lambda>a b. snd b \<le> snd a) out" if "drains q out"
    using that by (rule drains_descending)
  show "mset out = mset q" if "drains q out"
    using that by (rule drains_mset)
  show "out = rev (sort_key snd q)" if h: "drains q out \<and> distinct (map snd q)"
  proof -
    from h have d: "drains q out" and dist: "distinct (map snd q)"
      by simp_all
    show ?thesis
      by (rule descending_unique [OF drains_mset [OF d] drains_descending [OF d] dist])
  qed
  show "map fst out = [''C'', ''A'', ''B'']"
    if h: "drains q out \<and> mset q = mset [(''A'', 50), (''B'', 30), (''C'', 80)]"
  proof -
    from h three_cells_sorted [of q]
    have d: "distinct (map snd q)" and s: "rev (sort_key snd q) = [(''C'', 80), (''A'', 50), (''B'', 30)]"
      by simp_all
    from h have dr: "drains q out"
      by simp
    have "out = rev (sort_key snd q)"
      by (rule descending_unique [OF drains_mset [OF dr] drains_descending [OF dr] d])
    with s show ?thesis
      by simp
  qed
  show "cellQueue u = map (\<lambda>c. (Cell_tag c, int (length (Cell_rowList c)))) (cellList u)"
    if "readFile records = Inr u"
    using that by (rule readFile_queue)
qed

lemma exampleLog_case:
  "(case readFile exampleLog of
      Inl e \<Rightarrow> False
    | Inr u \<Rightarrow>
        cellQueue u = [(''A'', 3), (''B'', 1), (''C'', 2)]
        \<and> map (\<lambda>c. map datetime (Cell_rowList c)) (cellList u) = [[10, 70, 100], [50], [60, 90]]
        \<and> map datetime (rowList u) = [10, 50, 60, 70, 90, 100])"
  by (simp add: exampleLog_def readFile_def emptyUser_def readRow_def index_def newCell_def
      addDataRow_def newDataRow_def pq_push_def getName_def numConnections_def
      compareByTime_def getTimeValue_def mktime_def difftime_def Let_def)

lemma exampleLog_read:
  "\<exists>u. readFile exampleLog = Inr u
     \<and> cellQueue u = [(''A'', 3), (''B'', 1), (''C'', 2)]
     \<and> map (\<lambda>c. map datetime (Cell_rowList c)) (cellList u) = [[10, 70, 100], [50], [60, 90]]
     \<and> map datetime (rowList u) = [10, 50, 60, 70, 90, 100]"
  using exampleLog_case by (cases "readFile exampleLog") simp_all

theorem activity_ranking_descending_witness:
  "map fst (pq_drain [(''B'', 30), (''C'', 80), (''A'', 50)]) = [''C'', ''A'', ''B'']
   \<and> pq_drain [(''B'', 30), (''C'', 80), (''A'', 50)]
        = rev (sort_key snd [(''B'', 30), (''C'', 80), (''A'', 50)])
   \<and> (\<exists>u. readFile exampleLog = Inr u
         \<and> cellQueue u = map (\<lambda>c. (Cell_tag c, int (length (Cell_rowList c)))) (cellList u)
         \<and> cellQueue u = [(''A'', 3), (''B'', 1), (''C'', 2)]
         \<and> map fst (pq_drain (cellQueue u)) = [''A'', ''C'', ''B''])"
proof -
  let ?q = "[(''B'', 30), (''C'', 80), (''A'', 50)] :: PAIR list"
  note t = activity_ranking_descending
  have dr: "drains ?q (pq_drain ?q)"
    using t [of ?q] by (rule conjunct1)
  have "mset ?q = mset [(''A'', 50), (''B'', 30), (''C'', 80)]"
    by simp
  with t [of ?q "pq_drain ?q"] dr have a: "map fst (pq_drain ?q) = [''C'', ''A'', ''B'']"
    by blast
  have "distinct (map snd ?q)"
    by simp
  with t [of ?q "pq_drain ?q"] dr have b: "pq_drain ?q = rev (sort_key snd ?q)"
    by blast
  from exampleLog_read obtain u where u: "readFile exampleLog = Inr u"
    and q: "cellQueue u = [(''A'', 3), (''B'', 1), (''C'', 2)]"
    by blast
  from t [of _ _ exampleLog u] u
  have c: "cellQueue u = map (\<lambda>c. (Cell_tag c, int (length (Cell_rowList c)))) (cellList u)"
    by blast
  have d: "map fst (pq_drain (cellQueue u)) = [''A'', ''C'', ''B'']"
    by (simp add: q pq_drain_def pq_empty_def pq_top_def pq_pop_def compareBySecondValue_def)
  from a b u c q d show ?thesis
    by (intro conjI exI [of _ u]) assumption+
qed

text \<open>
  C9. A cell always holds at least one row: the constructor stores one, \<open>addDataRow\<close>
  adds one, and the sort of \<open>readFile\<close> keeps the rows. So every cell of the user that
  \<open>readFile\<close> builds (and of every state of its reading loop) has a row, and neither the
  read of \<open>rowList_[0]\<close> nor any other unchecked read of \<open>Cell::getTimeSegments\<close> is
  past the end.
\<close>

theorem cell_never_empty:
  "Cell_rowList (newCell r tg) \<noteq> []
   \<and> (Cell_rowList c \<noteq> [] \<longrightarrow> Cell_rowList (addDataRow c d) \<noteq> [])
   \<and> (readRows emptyUser records = Inr u0
        \<longrightarrow> (\<forall>c \<in> set (cellList u0). Cell_rowList c \<noteq> []))
   \<and> (readFile records = Inr u
        \<longrightarrow> (\<forall>c \<in> set (cellList u).
               Cell_rowList c \<noteq> []
               \<and> index (Cell_rowList c) 0 \<noteq> Inl UndefinedIndex
               \<and> getTimeSegments c interval \<noteq> Inl UndefinedIndex))"
proof (intro conjI impI ballI)
  show "Cell_rowList (newCell r tg) \<noteq> []"
    by (simp add: newCell_def)
  show "Cell_rowList (addDataRow c d) \<noteq> []"
    by (simp add: addDataRow_def)
  show "Cell_rowList c \<noteq> []" if "readRows emptyUser records = Inr u0" "c \<in> set (cellList u0)" for c
    using readRows_nonempty [OF that(1)] that(2) by (simp add: emptyUser_def)
next
  fix c
  assume "readFile records = Inr u" and "c \<in> set (cellList u)"
  then have ne: "Cell_rowList c \<noteq> []"
    using readFile_nonempty by blast
  then show "Cell_rowList c \<noteq> []" .
  from ne show "index (Cell_rowList c) 0 \<noteq> Inl UndefinedIndex"
    by (simp add: index_def)
  from ne show "getTimeSegments c interval \<noteq> Inl UndefinedIndex"
    by (rule getTimeSegments_defined)
qed

theorem cell_never_empty_witness:
  "\<exists>u. readFile exampleLog = Inr u
     \<and> map (\<lambda>c. map datetime (Cell_rowList c)) (cellList u) = [[10, 70, 100], [50], [60, 90]]
     \<and> list_all (\<lambda>c. Cell_rowList c \<noteq> []
                    \<and> index (Cell_rowList c) 0 \<noteq> Inl UndefinedIndex
                    \<and> getTimeSegments c 180 \<noteq> Inl UndefinedIndex) (cellList u)"
proof -
  from exampleLog_read obtain u where
    "readFile exampleLog = Inr u
     \<and> cellQueue u = [(''A'', 3), (''B'', 1), (''C'', 2)]
     \<and> map (\<lambda>c. map datetime (Cell_rowList c)) (cellList u) = [[10, 70, 100], [50], [60, 90]]
     \<and> map datetime (rowList u) = [10, 50, 60, 70, 90, 100]" ..
  then have u: "readFile exampleLog = Inr u"
    and rows: "map (\<lambda>c. map datetime (Cell_rowList c)) (cellList u) = [[10, 70, 100], [50], [60, 90]]"
    by simp_all
  note cells = cell_never_empty [where records = exampleLog and u = u and interval = 180,
      THEN conjunct2, THEN conjunct2, THEN conjunct2, rule_format, OF u]
  have "list_all (\<lambda>c. Cell_rowList c \<noteq> []
                    \<and> index (Cell_rowList c) 0 \<noteq> Inl UndefinedIndex
                    \<and> getTimeSegments c 180 \<noteq> Inl UndefinedIndex) (cellList u)"
    unfolding list_all_iff using cells by blast
  with u rows show ?thesis
    by (intro exI [of _ u] conjI) assumption+
qed

section \<open>Properties of User::findResidentialAreaBySpeed\<close>

lemma getTimeValue_error: "getTimeValue t = Inl e \<Longrightarrow> e = ExitDateNotConverted"
  by (auto simp: getTimeValue_def Let_def split: if_splits)

lemma outputSegment_defined:
  assumes "low < high" and "high \<le> length rows"
  shows "outputSegment rows mapID low high files \<noteq> Inl UndefinedIndex"
  using assms
  by (auto simp: outputSegment_def index_def createJsonFile_def getTimeValue_def Let_def
      split: sum.splits if_splits)

lemma speedLoop_defined:
  "low \<le> high \<Longrightarrow> high < length rows \<Longrightarrow> low < i \<Longrightarrow>
     indicesInRange rows (speedLoop distanceEarth rows i mapID low high files)"
proof (induction "length rows - i" arbitrary: i mapID low high files)
  case 0
  then show ?case
    by (subst speedLoop.simps) (simp add: indicesInRange_def)
next
  case (Suc n)
  then have i: "i < length rows"
    by simp
  have prev: "index rows (i - Suc 0) = Inr (rows ! (i - Suc 0))"
    using i by (simp add: index_def)
  have cur: "index rows i = Inr (rows ! i)"
    using i by (simp add: index_def)
  have n: "n = length rows - (i + 1)"
    using Suc.hyps(2) by simp
  have same: "indicesInRange rows (speedLoop distanceEarth rows (Suc i) m low i f)" for m f
    using Suc.hyps(1) [OF n, of low i m f] Suc.prems i by simp
  have fresh: "indicesInRange rows (speedLoop distanceEarth rows (Suc i) m i i f)" for m f
    using Suc.hyps(1) [OF n, of i i m f] i by simp
  have out: "outputSegment rows mapID low i files = Inl e \<Longrightarrow> e \<noteq> UndefinedIndex" for e
    using outputSegment_defined [of low i rows mapID files] Suc.prems i by auto
  have stop: "indicesInRange rows (Inl ExitNegativeTimeDiff)"
    "indicesInRange rows (Inl ExitDateNotConverted)"
    by (simp_all add: indicesInRange_def)
  have oute: "outputSegment rows mapID low i files = Inl e \<Longrightarrow> indicesInRange rows (Inl e)" for e
    using out by (simp add: indicesInRange_def)
  show ?case
    using i
    by (subst speedLoop.simps)
       (auto simp: prev cur Let_def same fresh stop oute split: sum.splits
          dest!: getTimeValue_error)
qed


text \<open>
  C10. \<open>User::findResidentialAreaBySpeed\<close> needs a non-empty log. On the empty log the
  loop does not run, \<open>high\<close> is incremented to 1, and the step after the loop reads
  \<open>rowList_[high - 1]\<close>, index 0 of an empty vector: past the end. On every non-empty log
  no read of the function is past the end, whatever the distance function answers (the
  function may still stop on a date that cannot be converted or on a negative time
  difference). The \<open>double\<close>s are reals here; the proof follows every branch of the
  loop, so it does not rest on which way a comparison of \<open>double\<close>s falls.
\<close>

theorem findResidentialAreaBySpeed_indices:
  "speedLoop distanceEarth [] 1 1 0 0 [] = Inr (1, 0, 0, [])
   \<and> index ([] :: DataRow list) ((0 + 1) - 1) = Inl UndefinedIndex
   \<and> findResidentialAreaBySpeed distanceEarth [] = Inl UndefinedIndex
   \<and> (rows \<noteq> [] \<longrightarrow> findResidentialAreaBySpeed distanceEarth rows \<noteq> Inl UndefinedIndex)"
proof (intro conjI impI)
  show loop: "speedLoop distanceEarth [] 1 1 0 0 [] = Inr (1, 0, 0, [])"
    by (simp add: speedLoop.simps)
  show "index ([] :: DataRow list) ((0 + 1) - 1) = Inl UndefinedIndex"
    by (simp add: index_def)
  show "findResidentialAreaBySpeed distanceEarth [] = Inl UndefinedIndex"
    using loop by (simp add: findResidentialAreaBySpeed_def outputSegment_def index_def)
next
  assume ne: "rows \<noteq> []"
  then have "indicesInRange rows (speedLoop distanceEarth rows 1 1 0 0 [])"
    by (intro speedLoop_defined) simp_all
  then show "findResidentialAreaBySpeed distanceEarth rows \<noteq> Inl UndefinedIndex"
    using outputSegment_defined [of _ _ rows]
    by (auto simp: findResidentialAreaBySpeed_def indicesInRange_def split: sum.splits)
qed

lemma exampleTrack_run:
  "(case findResidentialAreaBySpeed exampleDistance exampleTrack of
      Inl e \<Rightarrow> False
    | Inr files \<Rightarrow>
        map (\<lambda>f. (fileMapID f, fileFrom f, fileTo f, length (fileCoordinates f))) files
          = [(1, 0, 700, 2), (2, 800, 2000, 2)])"
  by (simp add: findResidentialAreaBySpeed_def speedLoop.simps outputSegment_def index_def
      createJsonFile_def getTimeValue_def mktime_def difftime_def exampleTrack_def
      exampleDistance_def newDataRow_def movingSpeed_def upscalingFactor_def minInterval_def
      Let_def)

theorem findResidentialAreaBySpeed_indices_witness:
  "findResidentialAreaBySpeed exampleDistance exampleTrack \<noteq> Inl UndefinedIndex
   \<and> (\<exists>files. findResidentialAreaBySpeed exampleDistance exampleTrack = Inr files
         \<and> map (\<lambda>f. (fileMapID f, fileFrom f, fileTo f, length (fileCoordinates f))) files
              = [(1, 0, 700, 2), (2, 800, 2000, 2)])"
proof -
  have "exampleTrack \<noteq> []"
    by (simp add: exampleTrack_def)
  with findResidentialAreaBySpeed_indices [of exampleDistance exampleTrack]
  have "findResidentialAreaBySpeed exampleDistance exampleTrack \<noteq> Inl UndefinedIndex"
    by simp
  then show ?thesis
    using exampleTrack_run
    by (cases "findResidentialAreaBySpeed exampleDistance exampleTrack") simp_all
qed

section \<open>Properties of User::findResidentialAreaByTopKCells\<close>

text \<open>
  The user that \<open>readFile\<close> builds keeps \<open>cellMap_\<close> and \<open>cellList_\<close> in agreement (so the
  reading loop never indexes \<open>cellList_\<close> past its end), and every entry of its queue
  names a cell that exists. The discovery loop changes neither \<open>cellMap_\<close> nor
  \<open>cellList_\<close> and only pops the queue, so the cell at the top of the queue is found at
  every iteration.
\<close>

lemma readRow_indexed:
  assumes "cellsIndexed (cellMap u) (cellList u)"
  shows "\<exists>u'. readRow u d = Inr u' \<and> cellsIndexed (cellMap u') (cellList u')"
proof (cases "cellMap u (tag d)")
  case None
  let ?cs = "cellList u @ [newCell d (tag d)]"
  let ?m = "(cellMap u)(tag d \<mapsto> length (cellList u))"
  have run: "readRow u d = Inr (u\<lparr>rowList := rowList u @ [d], cellList := ?cs, cellMap := ?m\<rparr>)"
    using None by (simp add: readRow_def Let_def)
  have "cellsIndexed ?m ?cs"
    unfolding cellsIndexed_def
  proof (intro conjI allI impI)
    fix tg idx assume h: "?m tg = Some idx"
    have both: "idx < length ?cs \<and> Cell_tag (?cs ! idx) = tg"
    proof (cases "tg = tag d")
      case True
      with h have "idx = length (cellList u)"
        by simp
      with True show ?thesis
        by (simp add: newCell_def)
    next
      case False
      with h have "cellMap u tg = Some idx"
        by simp
      with assms have "idx < length (cellList u) \<and> Cell_tag (cellList u ! idx) = tg"
        by (simp add: cellsIndexed_def)
      then show ?thesis
        by (simp add: nth_append)
    qed
    from both show "idx < length ?cs" ..
    from both show "Cell_tag (?cs ! idx) = tg" ..
  next
    fix i assume i: "i < length ?cs"
    show "?m (Cell_tag (?cs ! i)) = Some i"
    proof (cases "i < length (cellList u)")
      case True
      then have "cellMap u (Cell_tag (cellList u ! i)) = Some i"
        using assms by (simp add: cellsIndexed_def)
      with None True show ?thesis
        by (auto simp: nth_append)
    next
      case False
      with i have "i = length (cellList u)"
        by simp
      then show ?thesis
        by (simp add: newCell_def)
    qed
  qed
  with run show ?thesis
    by simp
next
  case (Some idx)
  with assms have idx: "idx < length (cellList u)" and tg: "Cell_tag (cellList u ! idx) = tag d"
    by (auto simp: cellsIndexed_def)
  let ?cs = "(cellList u)[idx := addDataRow (cellList u ! idx) d]"
  have run: "readRow u d = Inr (u\<lparr>rowList := rowList u @ [d], cellList := ?cs\<rparr>)"
    using Some idx by (simp add: readRow_def Let_def index_def)
  have tags: "Cell_tag (?cs ! i) = Cell_tag (cellList u ! i)" if "i < length (cellList u)" for i
    using that by (cases "i = idx") (simp_all add: addDataRow_def)
  have "cellsIndexed (cellMap u) ?cs"
    using assms tags by (simp add: cellsIndexed_def)
  with run show ?thesis
    by simp
qed

lemma readRows_indexed:
  "cellsIndexed (cellMap u) (cellList u) \<Longrightarrow>
     \<exists>u'. readRows u ds = Inr u' \<and> cellsIndexed (cellMap u') (cellList u')"
proof (induction ds arbitrary: u)
  case Nil
  then show ?case by simp
next
  case (Cons d ds)
  from readRow_indexed [OF Cons.prems, of d] obtain u1 where
    u1: "readRow u d = Inr u1" "cellsIndexed (cellMap u1) (cellList u1)"
    by blast
  from Cons.IH [OF u1(2)] u1(1) show ?case
    by simp
qed

lemma rankAndSortCells_tags:
  "rankAndSortCells cs q = Inr (cs', q') \<Longrightarrow> map Cell_tag cs' = map Cell_tag cs"
proof (induction cs arbitrary: q cs' q')
  case Nil
  then show ?case by simp
next
  case (Cons c cs)
  from Cons.prems obtain rows cs1 where
    rest: "rankAndSortCells cs (pq_push q (getName c, numConnections c)) = Inr (cs1, q')"
    and cs': "cs' = c\<lparr>Cell_rowList := rows\<rparr> # cs1"
    by (auto simp: Let_def split: sum.splits)
  from Cons.IH [OF rest] show ?case
    by (simp add: cs')
qed

lemma cellsIndexed_tags:
  assumes "cellsIndexed m cs" and "map Cell_tag cs' = map Cell_tag cs"
  shows "cellsIndexed m cs'"
proof -
  have len: "length cs' = length cs"
    using assms(2) by (metis length_map)
  have "Cell_tag (cs' ! i) = Cell_tag (cs ! i)" if "i < length cs" for i
    using assms(2) that len by (metis nth_map)
  with assms(1) len show ?thesis
    by (simp add: cellsIndexed_def)
qed

lemma readFile_indexed:
  assumes "readFile records = Inr u"
  shows "cellsIndexed (cellMap u) (cellList u)"
proof -
  from readFile_parts [OF assms] obtain u0 rows where
    u0: "readRows emptyUser records = Inr u0"
    and rank: "rankAndSortCells (cellList u0) (cellQueue u0) = Inr (cellList u, cellQueue u)"
    and u: "u = u0\<lparr>cellList := cellList u, cellQueue := cellQueue u, rowList := rows\<rparr>"
    by metis
  have "cellsIndexed (cellMap emptyUser) (cellList emptyUser)"
    by (simp add: cellsIndexed_def emptyUser_def)
  from readRows_indexed [OF this, of records] u0
  have "cellsIndexed (cellMap u0) (cellList u0)"
    by simp
  then have "cellsIndexed (cellMap u0) (cellList u)"
    using rankAndSortCells_tags [OF rank] by (rule cellsIndexed_tags)
  moreover have "cellMap u = cellMap u0"
    by (subst u) simp
  ultimately show ?thesis
    by simp
qed

lemma readFile_queue_cells:
  assumes "readFile records = Inr u" and "(tg, num) \<in> set (cellQueue u)"
  shows "\<exists>idx. cellMap u tg = Some idx \<and> idx < length (cellList u)
           \<and> Cell_tag (cellList u ! idx) = tg
           \<and> Cell_rowList (cellList u ! idx) \<noteq> []
           \<and> num = numConnections (cellList u ! idx)"
proof -
  from assms(2) readFile_queue [OF assms(1)]
  obtain i where i: "i < length (cellList u)" "tg = Cell_tag (cellList u ! i)"
    "num = int (length (Cell_rowList (cellList u ! i)))"
    by (auto simp: in_set_conv_nth)
  have "cellMap u tg = Some i"
    using readFile_indexed [OF assms(1)] i by (simp add: cellsIndexed_def)
  moreover have "Cell_rowList (cellList u ! i) \<noteq> []"
    using readFile_nonempty [OF assms(1)] i(1) by simp
  ultimately show ?thesis
    using i by (intro exI [of _ i]) (simp add: numConnections_def)
qed

lemma readFile_queueIndexed:
  assumes "readFile records = Inr u"
  shows "queueIndexed u"
  unfolding queueIndexed_def
proof
  fix p assume "p \<in> set (cellQueue u)"
  then have "(fst p, snd p) \<in> set (cellQueue u)"
    by simp
  from readFile_queue_cells [OF assms this]
  show "\<exists>idx. cellMap u (fst p) = Some idx \<and> idx < length (cellList u)
              \<and> Cell_rowList (cellList u ! idx) \<noteq> []"
    by blast
qed

lemma queueIndexed_top:
  assumes "queueIndexed u" and "\<not> pq_empty (cellQueue u)"
  shows "\<exists>idx. cellMap u (fst (pq_top (cellQueue u))) = Some idx \<and> idx < length (cellList u)
              \<and> Cell_rowList (cellList u ! idx) \<noteq> []"
proof -
  have "pq_top (cellQueue u) \<in> set (cellQueue u)"
    using assms(2) by (intro pq_top_mem) (simp add: pq_empty_def)
  with assms(1) show ?thesis
    unfolding queueIndexed_def by blast
qed

lemma queueIndexed_pop:
  assumes "queueIndexed u"
  shows "queueIndexed (u\<lparr>cellQueue := pq_pop (cellQueue u)\<rparr>)"
proof -
  have "set (pq_pop (cellQueue u)) \<subseteq> set (cellQueue u)"
    by (simp add: pq_pop_def set_remove1_subset)
  with assms show ?thesis
    unfolding queueIndexed_def by auto
qed

lemma int_of_size_t_small: "0 \<le> n \<Longrightarrow> n < 2 ^ 31 \<Longrightarrow> int_of_size_t n = n"
  by (simp add: int_of_size_t_def)

lemma stayTimeOf_exact:
  assumes "0 \<le> interval" and "int (length currSegList) * interval < 2 ^ 31"
  shows "stayTimeOf currSegList interval = int (length currSegList) * interval"
proof (cases "length currSegList = 0")
  case True
  then show ?thesis
    by (simp add: stayTimeOf_def int_of_size_t_def)
next
  case False
  then have "1 \<le> int (length currSegList)"
    by (cases currSegList) simp_all
  then have "interval \<le> int (length currSegList) * interval"
    using assms(1) by (simp add: mult_le_cancel_right1)
  with assms have small: "interval < 2 ^ 31"
    by simp
  then have "interval mod 2 ^ 64 = interval"
    using assms(1) by simp
  moreover have "0 \<le> int (length currSegList) * interval"
    using assms(1) by simp
  ultimately show ?thesis
    using assms(2) by (simp add: stayTimeOf_def size_t_of_int_def int_of_size_t_small)
qed

lemma int_div_positive: "0 < b \<Longrightarrow> 0 \<le> a \<Longrightarrow> int_div a b = Inr (a div b)"
  by (auto simp: int_div_def sgn_if)

lemma topKLoop_step:
  assumes "\<not> pq_empty (cellQueue u)"
    and "pq_top (cellQueue u) = (cellTag, num)"
    and "cellMap u cellTag = Some idx"
    and "idx < length (cellList u)"
    and "getTimeSegments (cellList u ! idx) interval = Inr currSegList"
    and "0 < interval"
  shows "topKLoop interval u st =
     (if num < 3600 div interval then Inr (u, st)
      else
        (case (if stayTimeOf currSegList interval > 3600
               then assignArea cellTag currSegList st
               else Inr st) of
           Inl e \<Rightarrow> Inl e
         | Inr st' \<Rightarrow> topKLoop interval (u\<lparr>cellQueue := pq_pop (cellQueue u)\<rparr>) st'))"
  using assms
  by (subst topKLoop.simps)
     (simp add: cellMap_index_def index_def int_div_positive Let_def cong: sum.case_cong)

lemma exampleLog_user: "readFile exampleLog = Inr exampleUser"
  by (simp add: numeral_2_eq_2 exampleLog_def exampleUser_def cellOfTimes_def readFile_def emptyUser_def
      readRow_def index_def newCell_def
      addDataRow_def newDataRow_def pq_push_def getName_def numConnections_def
      compareByTime_def getTimeValue_def mktime_def difftime_def Let_def)

text \<open>
  C4. One iteration of the discovery loop, for the cell at the top of the queue (its tag
  known to \<open>cellMap_\<close>, its segments computed, \<open>interval > 0\<close>). When the cell's count is
  below \<open>3600 / interval\<close> (the \<open>int\<close> division of the source) the loop ends at once:
  the result is the current state, and no later cell is looked at. Otherwise
  \<open>stayTime\<close> is the number of segments times \<open>interval\<close> (as long as the product is an
  \<open>int\<close>), and when it is at most 3600 the cell is skipped: the areas are left as they
  are and the loop goes on with the cell popped.
\<close>

theorem topK_break_and_skip:
  assumes "\<not> pq_empty (cellQueue u)"
    and "pq_top (cellQueue u) = (cellTag, num)"
    and "cellMap u cellTag = Some idx"
    and "idx < length (cellList u)"
    and "getTimeSegments (cellList u ! idx) interval = Inr currSegList"
    and "0 < interval"
  shows "(num < 3600 div interval \<longrightarrow> topKLoop interval u st = Inr (u, st))
     \<and> (int (length currSegList) * interval < 2 ^ 31 \<longrightarrow>
           stayTimeOf currSegList interval = int (length currSegList) * interval)
     \<and> (\<not> num < 3600 div interval \<and> stayTimeOf currSegList interval \<le> 3600 \<longrightarrow>
           topKLoop interval u st
             = topKLoop interval (u\<lparr>cellQueue := pq_pop (cellQueue u)\<rparr>) st)
     \<and> (\<not> num < 3600 div interval \<and> int (length currSegList) * interval \<le> 3600 \<longrightarrow>
           topKLoop interval u st
             = topKLoop interval (u\<lparr>cellQueue := pq_pop (cellQueue u)\<rparr>) st)"
proof -
  note step = topKLoop_step [OF assms, of st]
  have exact: "stayTimeOf currSegList interval = int (length currSegList) * interval"
    if "int (length currSegList) * interval < 2 ^ 31"
    using that assms(6) by (intro stayTimeOf_exact) simp_all
  have skip: "topKLoop interval u st
             = topKLoop interval (u\<lparr>cellQueue := pq_pop (cellQueue u)\<rparr>) st"
    if "\<not> num < 3600 div interval" and "stayTimeOf currSegList interval \<le> 3600"
    using that step by simp
  have skip': "topKLoop interval u st
             = topKLoop interval (u\<lparr>cellQueue := pq_pop (cellQueue u)\<rparr>) st"
    if "\<not> num < 3600 div interval" and le: "int (length currSegList) * interval \<le> 3600"
  proof -
    from le have "int (length currSegList) * interval < 2 ^ 31"
      by simp
    with le exact have "stayTimeOf currSegList interval \<le> 3600"
      by simp
    with that(1) show ?thesis
      by (rule skip)
  qed
  from step exact skip skip' show ?thesis
    by simp
qed

lemma exampleUser_segments:
  "getTimeSegments (cellOfTimes ''A'' [10, 70, 100]) 1800 = Inr [(10, 100)]"
  "getTimeSegments (cellOfTimes ''A'' [10, 70, 100]) 900 = Inr [(10, 100)]"
  by (simp_all add: cellOfTimes_def getTimeSegments_def getTimeSegments_loop.simps
      isWithinInterval_def index_def getTimeValue_def mktime_def difftime_def newDataRow_def)

theorem topK_break_and_skip_witness:
  "readFile exampleLog = Inr exampleUser
   \<and> topKLoop 900 exampleUser initialAreas = Inr (exampleUser, initialAreas)
   \<and> stayTimeOf [(10, 100)] 1800 = 1800
   \<and> topKLoop 1800 exampleUser initialAreas
        = topKLoop 1800 (exampleUser\<lparr>cellQueue := [(''B'', 1), (''C'', 2)]\<rparr>) initialAreas"
proof -
  have top: "pq_top (cellQueue exampleUser) = (''A'', 3)"
    by (simp add: exampleUser_def pq_top_def compareBySecondValue_def)
  have pop: "pq_pop (cellQueue exampleUser) = [(''B'', 1), (''C'', 2)]"
    by (simp add: exampleUser_def pq_pop_def pq_top_def compareBySecondValue_def)
  have ne: "\<not> pq_empty (cellQueue exampleUser)"
    by (simp add: exampleUser_def pq_empty_def)
  have m: "cellMap exampleUser ''A'' = Some 0"
    by (simp add: exampleUser_def)
  have len: "0 < length (cellList exampleUser)"
    by (simp add: exampleUser_def)
  have c: "cellList exampleUser ! 0 = cellOfTimes ''A'' [10, 70, 100]"
    by (simp add: exampleUser_def)
  have "topKLoop 900 exampleUser initialAreas = Inr (exampleUser, initialAreas)"
    using topK_break_and_skip [OF ne top m len, of 900 "[(10, 100)]" initialAreas]
    by (simp add: c exampleUser_segments)
  moreover have "stayTimeOf [(10, 100)] 1800 = 1800
     \<and> topKLoop 1800 exampleUser initialAreas
        = topKLoop 1800 (exampleUser\<lparr>cellQueue := [(''B'', 1), (''C'', 2)]\<rparr>) initialAreas"
    using topK_break_and_skip [OF ne top m len, of 1800 "[(10, 100)]" initialAreas]
    by (simp add: c exampleUser_segments pop)
  ultimately show ?thesis
    using exampleLog_user by simp
qed

lemma areaLoop_result:
  "areaLoop cellTag currSegList st k = Inr (merged, st') \<Longrightarrow>
     (if merged then
        \<exists>i mergedSegList. k \<le> i \<and> i < length (areaList st)
          \<and> merge currSegList (areaList st ! i) = Inr mergedSegList
          \<and> length mergedSegList < length currSegList + length (areaList st ! i)
          \<and> (\<forall>j. k \<le> j \<and> j < i \<longrightarrow> rejects currSegList (areaList st ! j))
          \<and> st' = st\<lparr>areaList := (areaList st)[i := mergedSegList],
                      areaMap := (areaMap st)(cellTag \<mapsto> int i + 1)\<rparr>
      else st' = st
          \<and> (\<forall>j. k \<le> j \<and> j < length (areaList st) \<longrightarrow> rejects currSegList (areaList st ! j)))"
proof (induction "length (areaList st) - k" arbitrary: k)
  case 0
  then have "areaLoop cellTag currSegList st k = Inr (False, st)"
    by (subst areaLoop.simps) simp
  with "0.prems" have "\<not> merged" and "st' = st"
    by simp_all
  moreover have "\<forall>j. k \<le> j \<and> j < length (areaList st) \<longrightarrow> rejects currSegList (areaList st ! j)"
  proof (intro allI impI)
    fix j assume "k \<le> j \<and> j < length (areaList st)"
    with "0.hyps" have False
      by linarith
    then show "rejects currSegList (areaList st ! j)" ..
  qed
  ultimately show ?case
    by simp
next
  case (Suc n)
  then have k: "k < length (areaList st)"
    by simp
  have unfold: "areaLoop cellTag currSegList st k =
        (case merge currSegList (areaList st ! k) of
           Inl e \<Rightarrow> Inl e
         | Inr mergedSegList \<Rightarrow>
             if length mergedSegList < length currSegList + length (areaList st ! k)
             then Inr (True, st\<lparr>areaList := (areaList st)[k := mergedSegList],
                                areaMap := (areaMap st)(cellTag \<mapsto> int k + 1)\<rparr>)
             else areaLoop cellTag currSegList st (k + 1))"
    using k by (subst areaLoop.simps) simp
  have "\<exists>m. merge currSegList (areaList st ! k) = Inr m"
  proof (cases "merge currSegList (areaList st ! k)")
    case (Inl e)
    with Suc.prems unfold show ?thesis by simp
  next
    case (Inr m)
    then show ?thesis by simp
  qed
  then obtain m where m: "merge currSegList (areaList st ! k) = Inr m" ..
  show ?case
  proof (cases "length m < length currSegList + length (areaList st ! k)")
    case True
    have "areaLoop cellTag currSegList st k =
        Inr (True, st\<lparr>areaList := (areaList st)[k := m],
                       areaMap := (areaMap st)(cellTag \<mapsto> int k + 1)\<rparr>)"
      using unfold m True by simp
    with Suc.prems have mg: "merged" and
      st': "st' = st\<lparr>areaList := (areaList st)[k := m],
                 areaMap := (areaMap st)(cellTag \<mapsto> int k + 1)\<rparr>"
      by simp_all
    have none: "\<forall>j. k \<le> j \<and> j < k \<longrightarrow> rejects currSegList (areaList st ! j)"
    proof (intro allI impI)
      fix j assume "k \<le> j \<and> j < k"
      then have False
        by linarith
      then show "rejects currSegList (areaList st ! j)" ..
    qed
    have "k \<le> k \<and> k < length (areaList st)
          \<and> merge currSegList (areaList st ! k) = Inr m
          \<and> length m < length currSegList + length (areaList st ! k)
          \<and> (\<forall>j. k \<le> j \<and> j < k \<longrightarrow> rejects currSegList (areaList st ! j))
          \<and> st' = st\<lparr>areaList := (areaList st)[k := m],
                      areaMap := (areaMap st)(cellTag \<mapsto> int k + 1)\<rparr>"
      using k m True st' none by simp
    then have "\<exists>i mergedSegList. k \<le> i \<and> i < length (areaList st)
          \<and> merge currSegList (areaList st ! i) = Inr mergedSegList
          \<and> length mergedSegList < length currSegList + length (areaList st ! i)
          \<and> (\<forall>j. k \<le> j \<and> j < i \<longrightarrow> rejects currSegList (areaList st ! j))
          \<and> st' = st\<lparr>areaList := (areaList st)[i := mergedSegList],
                      areaMap := (areaMap st)(cellTag \<mapsto> int i + 1)\<rparr>"
      by (intro exI [of _ k] exI [of _ m])
    with mg show ?thesis
      by simp
  next
    case False
    have "areaLoop cellTag currSegList st k = areaLoop cellTag currSegList st (k + 1)"
      using unfold m False by simp
    with Suc.prems have next_call: "areaLoop cellTag currSegList st (k + 1) = Inr (merged, st')"
      by simp
    have n: "n = length (areaList st) - (k + 1)"
      using Suc.hyps(2) by simp
    note ih = Suc.hyps(1) [OF n next_call]
    have rej: "rejects currSegList (areaList st ! k)"
      using m False by (simp add: rejects_def)
    have upto: "\<forall>j. k \<le> j \<and> j < i \<longrightarrow> rejects currSegList (areaList st ! j)"
      if "\<forall>j. k + 1 \<le> j \<and> j < i \<longrightarrow> rejects currSegList (areaList st ! j)" for i
    proof (intro allI impI)
      fix j assume j: "k \<le> j \<and> j < i"
      show "rejects currSegList (areaList st ! j)"
      proof (cases "j = k")
        case True
        with rej show ?thesis by simp
      next
        case False
        with j have "k + 1 \<le> j \<and> j < i" by simp
        with that show ?thesis by blast
      qed
    qed
    show ?thesis
    proof (cases merged)
      case True
      with ih obtain i mergedSegList where
        i: "k + 1 \<le> i \<and> i < length (areaList st)
          \<and> merge currSegList (areaList st ! i) = Inr mergedSegList
          \<and> length mergedSegList < length currSegList + length (areaList st ! i)
          \<and> (\<forall>j. k + 1 \<le> j \<and> j < i \<longrightarrow> rejects currSegList (areaList st ! j))
          \<and> st' = st\<lparr>areaList := (areaList st)[i := mergedSegList],
                      areaMap := (areaMap st)(cellTag \<mapsto> int i + 1)\<rparr>"
        by (simp only: if_True) (elim exE)
      then have before: "\<forall>j. k \<le> j \<and> j < i \<longrightarrow> rejects currSegList (areaList st ! j)"
        by (intro upto) simp
      have "k \<le> i \<and> i < length (areaList st)
          \<and> merge currSegList (areaList st ! i) = Inr mergedSegList
          \<and> length mergedSegList < length currSegList + length (areaList st ! i)
          \<and> (\<forall>j. k \<le> j \<and> j < i \<longrightarrow> rejects currSegList (areaList st ! j))
          \<and> st' = st\<lparr>areaList := (areaList st)[i := mergedSegList],
                      areaMap := (areaMap st)(cellTag \<mapsto> int i + 1)\<rparr>"
        using i before by simp
      then have "\<exists>i mergedSegList. k \<le> i \<and> i < length (areaList st)
          \<and> merge currSegList (areaList st ! i) = Inr mergedSegList
          \<and> length mergedSegList < length currSegList + length (areaList st ! i)
          \<and> (\<forall>j. k \<le> j \<and> j < i \<longrightarrow> rejects currSegList (areaList st ! j))
          \<and> st' = st\<lparr>areaList := (areaList st)[i := mergedSegList],
                      areaMap := (areaMap st)(cellTag \<mapsto> int i + 1)\<rparr>"
        by (intro exI [of _ i] exI [of _ mergedSegList])
      with True show ?thesis
        by simp
    next
      case False
      with ih have same: "st' = st"
        and rest: "\<forall>j. k + 1 \<le> j \<and> j < length (areaList st) \<longrightarrow> rejects currSegList (areaList st ! j)"
        by simp_all
      from upto [OF rest] same False show ?thesis
        by simp
    qed
  qed
qed


lemma assignArea_result:
  assumes "assignArea cellTag currSegList st = Inr st'"
  shows "(\<exists>i mergedSegList. i < length (areaList st)
            \<and> merge currSegList (areaList st ! i) = Inr mergedSegList
            \<and> length mergedSegList < length currSegList + length (areaList st ! i)
            \<and> (\<forall>j < i. rejects currSegList (areaList st ! j))
            \<and> st' = st\<lparr>areaList := (areaList st)[i := mergedSegList],
                        areaMap := (areaMap st)(cellTag \<mapsto> int i + 1)\<rparr>)
       \<or> ((\<forall>j < length (areaList st). rejects currSegList (areaList st ! j))
            \<and> st' = st\<lparr>areaMap := (areaMap st)(cellTag \<mapsto> areaID st),
                        areaID := areaID st + 1,
                        areaList := areaList st @ [currSegList]\<rparr>)"
proof (cases "areaLoop cellTag currSegList st 0")
  case (Inl e)
  with assms show ?thesis
    by (simp add: assignArea_def)
next
  case (Inr r)
  obtain merged st1 where r: "r = (merged, st1)"
    by (cases r)
  note loop = areaLoop_result [OF Inr [unfolded r]]
  show ?thesis
  proof (cases merged)
    case True
    with assms Inr r have "st' = st1"
      by (simp add: assignArea_def)
    with loop True show ?thesis
      by simp
  next
    case False
    with assms Inr r have "st' = st1\<lparr>areaMap := (areaMap st1)(cellTag \<mapsto> areaID st1),
                        areaID := areaID st1 + 1,
                        areaList := areaList st1 @ [currSegList]\<rparr>"
      by (simp add: assignArea_def)
    with loop False show ?thesis
      by simp
  qed
qed

lemma ran_upd_cases: "x \<in> ran (m(k \<mapsto> v)) \<Longrightarrow> x = v \<or> x \<in> ran m"
  by (auto simp: ran_def split: if_splits)

lemma assignArea_sequential:
  assumes "assignArea cellTag currSegList st = Inr st'" and "sequentialIds st"
  shows "sequentialIds st'"
proof -
  from assms(2) have idn: "areaID st = int (length (areaList st)) + 1"
    and old: "\<And>x. x \<in> ran (areaMap st) \<Longrightarrow> 1 \<le> x \<and> x \<le> int (length (areaList st))"
    by (auto simp: sequentialIds_def)
  from assignArea_result [OF assms(1)] consider
    (fit) i mergedSegList where "i < length (areaList st)"
      "st' = st\<lparr>areaList := (areaList st)[i := mergedSegList],
                 areaMap := (areaMap st)(cellTag \<mapsto> int i + 1)\<rparr>"
  | (fresh) "st' = st\<lparr>areaMap := (areaMap st)(cellTag \<mapsto> areaID st),
                        areaID := areaID st + 1,
                        areaList := areaList st @ [currSegList]\<rparr>"
    by blast
  then show ?thesis
  proof cases
    case fit
    have "1 \<le> x \<and> x \<le> int (length (areaList st'))" if "x \<in> ran (areaMap st')" for x
    proof -
      from that fit(2) have "x = int i + 1 \<or> x \<in> ran (areaMap st)"
        by (auto dest: ran_upd_cases)
      then show ?thesis
        using fit old by auto
    qed
    then have "ran (areaMap st') \<subseteq> {1 .. int (length (areaList st'))}"
      by auto
    with fit idn show ?thesis
      by (simp add: sequentialIds_def)
  next
    case fresh
    have "1 \<le> x \<and> x \<le> int (length (areaList st'))" if "x \<in> ran (areaMap st')" for x
    proof -
      from that fresh have "x = areaID st \<or> x \<in> ran (areaMap st)"
        by (auto dest: ran_upd_cases)
      then show ?thesis
      proof
        assume "x = areaID st"
        with fresh idn show ?thesis
          by simp
      next
        assume "x \<in> ran (areaMap st)"
        from old [OF this] fresh show ?thesis
          by simp
      qed
    qed
    then have "ran (areaMap st') \<subseteq> {1 .. int (length (areaList st'))}"
      by auto
    with fresh idn show ?thesis
      by (simp add: sequentialIds_def)
  qed
qed

lemma topKLoop_sequential:
  "sequentialIds st \<Longrightarrow> topKLoop interval u st = Inr (u', st') \<Longrightarrow> sequentialIds st'"
proof (induction "length (cellQueue u)" arbitrary: u st)
  case 0
  then have "topKLoop interval u st = Inr (u, st)"
    by (subst topKLoop.simps) (simp add: pq_empty_def)
  with "0.prems" show ?case
    by simp
next
  case (Suc n)
  then have ne: "cellQueue u \<noteq> []"
    by auto
  define cellTag where "cellTag = fst (pq_top (cellQueue u))"
  define num where "num = snd (pq_top (cellQueue u))"
  define u1 where "u1 = u\<lparr>cellMap := snd (cellMap_index (cellMap u) cellTag)\<rparr>"
  define popped where "popped = u1\<lparr>cellQueue := pq_pop (cellQueue u1)\<rparr>"
  have len: "n = length (cellQueue popped)"
    using pq_pop_length [OF ne] Suc.hyps(2) by (simp add: popped_def u1_def)
  have unfold: "topKLoop interval u st =
     (case index (cellList u1) (fst (cellMap_index (cellMap u) cellTag)) of
           Inl e \<Rightarrow> Inl e
         | Inr cell \<Rightarrow>
        (case getTimeSegments cell interval of
           Inl e \<Rightarrow> Inl e
         | Inr currSegList \<Rightarrow>
        (case int_div 3600 interval of
           Inl e \<Rightarrow> Inl e
         | Inr minNum \<Rightarrow>
             if num < minNum then Inr (u1, st)
             else
               (case (if stayTimeOf currSegList interval > 3600
                      then assignArea cellTag currSegList st
                      else Inr st) of
                  Inl e \<Rightarrow> Inl e
                | Inr st1 \<Rightarrow> topKLoop interval popped st1))))"
    using ne
    by (subst topKLoop.simps)
       (simp add: pq_empty_def Let_def cellTag_def num_def u1_def popped_def
          cong: sum.case_cong if_cong)
  from Suc.prems(2) [unfolded unfold] obtain currSegList minNum where
    rest: "(if num < minNum then Inr (u1, st)
             else
               (case (if stayTimeOf currSegList interval > 3600
                      then assignArea cellTag currSegList st
                      else Inr st) of
                  Inl e \<Rightarrow> Inl e
                | Inr st1 \<Rightarrow> topKLoop interval popped st1)) = Inr (u', st')"
    by (auto split: sum.splits)
  show ?case
  proof (cases "num < minNum")
    case True
    with rest Suc.prems(1) show ?thesis
      by simp
  next
    case False
    with rest obtain st1 where
      st1: "(if stayTimeOf currSegList interval > 3600
                      then assignArea cellTag currSegList st
                      else Inr st) = Inr st1"
      and go: "topKLoop interval popped st1 = Inr (u', st')"
      by (auto split: sum.splits)
    have "sequentialIds st1"
    proof (cases "stayTimeOf currSegList interval > 3600")
      case True
      with st1 Suc.prems(1) show ?thesis
        by (auto intro: assignArea_sequential)
    next
      case False
      with st1 Suc.prems(1) show ?thesis
        by simp
    qed
    from Suc.hyps(1) [OF len this go] show ?thesis .
  qed
qed

lemma initialAreas_sequential: "sequentialIds initialAreas"
  by (simp add: sequentialIds_def initialAreas_def)

text \<open>
  C5. A cell that qualifies is handed to \<open>assignArea\<close> (last part of the statement). The
  areas are tried in the order of \<open>areaList\<close>, which is the order of their creation: the
  cell goes to the area of the least index \<open>i\<close> whose merge with the cell's intervals is
  shorter than the two lists together (every area before it turned the cell down); the
  cell's tag is bound to the id \<open>i + 1\<close> and the area's intervals are replaced by the
  merged list. When every area turns the cell down, a new area with the cell's intervals
  is appended and the tag is bound to the counter \<open>areaID\<close>, which is then incremented.
  The counter starts at 1 with no area and stays one more than the number of areas, so
  the ids are \<open>1, 2, ...\<close> in the order of discovery, through the whole loop.
\<close>

theorem first_fit_area_assignment:
  "(assignArea cellTag currSegList st = Inr st' \<longrightarrow>
      (\<exists>i mergedSegList. i < length (areaList st)
            \<and> merge currSegList (areaList st ! i) = Inr mergedSegList
            \<and> length mergedSegList < length currSegList + length (areaList st ! i)
            \<and> (\<forall>j < i. rejects currSegList (areaList st ! j))
            \<and> st' = st\<lparr>areaList := (areaList st)[i := mergedSegList],
                        areaMap := (areaMap st)(cellTag \<mapsto> int i + 1)\<rparr>)
       \<or> ((\<forall>j < length (areaList st). rejects currSegList (areaList st ! j))
            \<and> st' = st\<lparr>areaMap := (areaMap st)(cellTag \<mapsto> areaID st),
                        areaID := areaID st + 1,
                        areaList := areaList st @ [currSegList]\<rparr>))
   \<and> (assignArea cellTag currSegList st = Inr st' \<and> sequentialIds st \<longrightarrow>
        areaID st = int (length (areaList st)) + 1 \<and> sequentialIds st')
   \<and> sequentialIds initialAreas \<and> areaID initialAreas = 1 \<and> areaList initialAreas = []
   \<and> (sequentialIds st \<and> topKLoop interval u st = Inr (uEnd, stEnd) \<longrightarrow> sequentialIds stEnd)
   \<and> (\<not> pq_empty (cellQueue u) \<and> pq_top (cellQueue u) = (cellTag, num)
        \<and> cellMap u cellTag = Some idx \<and> idx < length (cellList u)
        \<and> getTimeSegments (cellList u ! idx) interval = Inr currSegList
        \<and> 0 < interval \<and> \<not> num < 3600 div interval
        \<and> 3600 < stayTimeOf currSegList interval \<longrightarrow>
        topKLoop interval u st =
          (case assignArea cellTag currSegList st of
             Inl e \<Rightarrow> Inl e
           | Inr st1 \<Rightarrow> topKLoop interval (u\<lparr>cellQueue := pq_pop (cellQueue u)\<rparr>) st1))"
proof (intro conjI impI)
  assume "assignArea cellTag currSegList st = Inr st'"
  then show "(\<exists>i mergedSegList. i < length (areaList st)
            \<and> merge currSegList (areaList st ! i) = Inr mergedSegList
            \<and> length mergedSegList < length currSegList + length (areaList st ! i)
            \<and> (\<forall>j < i. rejects currSegList (areaList st ! j))
            \<and> st' = st\<lparr>areaList := (areaList st)[i := mergedSegList],
                        areaMap := (areaMap st)(cellTag \<mapsto> int i + 1)\<rparr>)
       \<or> ((\<forall>j < length (areaList st). rejects currSegList (areaList st ! j))
            \<and> st' = st\<lparr>areaMap := (areaMap st)(cellTag \<mapsto> areaID st),
                        areaID := areaID st + 1,
                        areaList := areaList st @ [currSegList]\<rparr>)"
    by (rule assignArea_result)
next
  assume a: "assignArea cellTag currSegList st = Inr st' \<and> sequentialIds st"
  then show "areaID st = int (length (areaList st)) + 1"
    by (simp add: sequentialIds_def)
  from a show "sequentialIds st'"
    by (blast intro: assignArea_sequential)
next
  show "sequentialIds initialAreas"
    by (rule initialAreas_sequential)
  show "areaID initialAreas = 1" "areaList initialAreas = []"
    by (simp_all add: initialAreas_def)
next
  assume "sequentialIds st \<and> topKLoop interval u st = Inr (uEnd, stEnd)"
  then show "sequentialIds stEnd"
    by (blast intro: topKLoop_sequential)
next
  assume h: "\<not> pq_empty (cellQueue u) \<and> pq_top (cellQueue u) = (cellTag, num)
        \<and> cellMap u cellTag = Some idx \<and> idx < length (cellList u)
        \<and> getTimeSegments (cellList u ! idx) interval = Inr currSegList
        \<and> 0 < interval \<and> \<not> num < 3600 div interval
        \<and> 3600 < stayTimeOf currSegList interval"
  then have "topKLoop interval u st =
     (if num < 3600 div interval then Inr (u, st)
      else
        (case (if stayTimeOf currSegList interval > 3600
               then assignArea cellTag currSegList st
               else Inr st) of
           Inl e \<Rightarrow> Inl e
         | Inr st' \<Rightarrow> topKLoop interval (u\<lparr>cellQueue := pq_pop (cellQueue u)\<rparr>) st'))"
    using topKLoop_step [where u = u and cellTag = cellTag and num = num and idx = idx
        and interval = interval and currSegList = currSegList and st = st]
    by simp
  with h show "topKLoop interval u st =
          (case assignArea cellTag currSegList st of
             Inl e \<Rightarrow> Inl e
           | Inr st1 \<Rightarrow> topKLoop interval (u\<lparr>cellQueue := pq_pop (cellQueue u)\<rparr>) st1)"
    by simp
qed

lemma homeLog_run:
  "(case readFile homeLog of
      Inl e \<Rightarrow> False
    | Inr u \<Rightarrow>
        cellQueue u = [(''A'', 3), (''B'', 3), (''C'', 3), (''D'', 1)]
        \<and> (case findResidentialAreaByTopKCells 1800 u of
             Inl e \<Rightarrow> False
           | Inr (u', st) \<Rightarrow>
               map (areaMap st) [''A'', ''B'', ''C'', ''D''] = [Some 1, Some 1, Some 2, None]
               \<and> areaID st = 3
               \<and> areaList st =
                    [[(0, 0), (2000, 2000), (4000, 4000), (6000, 6000)],
                     [(10000, 10000), (20000, 20000), (30000, 30000)]]
               \<and> map (\<lambda>r. (datetime r, tag r, areaId r)) (rowList u') =
                    [(0, ''A'', 1), (5, ''D'', 0), (2000, ''A'', 1), (2000, ''B'', 1),
                     (4000, ''A'', 1), (4000, ''B'', 1), (6000, ''B'', 1), (10000, ''C'', 2),
                     (20000, ''C'', 2), (30000, ''C'', 2)]
               \<and> cellQueue u' = [(''D'', 1)]))"
  by (simp add: homeLog_def readFile_def emptyUser_def readRow_def index_def newCell_def
      addDataRow_def newDataRow_def pq_push_def getName_def numConnections_def
      compareByTime_def getTimeValue_def mktime_def difftime_def Let_def
      findResidentialAreaByTopKCells_def topKLoop.simps initialAreas_def pq_empty_def
      pq_top_def pq_pop_def compareBySecondValue_def cellMap_index_def
      getTimeSegments_def getTimeSegments_loop.simps isWithinInterval_def int_div_def
      stayTimeOf_def size_t_of_int_def int_of_size_t_def assignArea_def areaLoop.simps
      merge_def merge_loop.simps place_def vector_at_def updateAreaIDs_def setAreaID_def)

lemma homeLog_result:
  "\<exists>u u' st. readFile homeLog = Inr u
      \<and> findResidentialAreaByTopKCells 1800 u = Inr (u', st)
      \<and> map (areaMap st) [''A'', ''B'', ''C'', ''D''] = [Some 1, Some 1, Some 2, None]
      \<and> areaID st = 3
      \<and> areaList st =
           [[(0, 0), (2000, 2000), (4000, 4000), (6000, 6000)],
            [(10000, 10000), (20000, 20000), (30000, 30000)]]"
proof (cases "readFile homeLog")
  case (Inl e)
  with homeLog_run show ?thesis
    by simp
next
  case u: (Inr u)
  show ?thesis
  proof (cases "findResidentialAreaByTopKCells 1800 u")
    case (Inl e)
    with homeLog_run u show ?thesis
      by simp
  next
    case (Inr r)
    obtain u' st where r: "r = (u', st)"
      by (cases r)
    from homeLog_run u Inr r
    have "map (areaMap st) [''A'', ''B'', ''C'', ''D''] = [Some 1, Some 1, Some 2, None]
      \<and> areaID st = 3
      \<and> areaList st =
           [[(0, 0), (2000, 2000), (4000, 4000), (6000, 6000)],
            [(10000, 10000), (20000, 20000), (30000, 30000)]]"
      by simp
    with u Inr r show ?thesis
      by (intro exI [of _ u] exI [of _ u'] exI [of _ st]) simp
  qed
qed

lemma findResidentialAreaByTopKCells_loop:
  "findResidentialAreaByTopKCells interval u = Inr (u', st) \<Longrightarrow>
     \<exists>uEnd. topKLoop interval u initialAreas = Inr (uEnd, st)"
  by (auto simp: findResidentialAreaByTopKCells_def split: sum.splits)

theorem first_fit_area_assignment_witness:
  "assignArea ''B'' [(2000, 2000), (4000, 4000), (6000, 6000)]
      \<lparr>areaMap = [''A'' \<mapsto> 1], areaID = 2,
       areaList = [[(0, 0), (2000, 2000), (4000, 4000)]]\<rparr>
     = Inr \<lparr>areaMap = [''A'' \<mapsto> 1, ''B'' \<mapsto> 1], areaID = 2,
            areaList = [[(0, 0), (2000, 2000), (4000, 4000), (6000, 6000)]]\<rparr>
   \<and> sequentialIds \<lparr>areaMap = [''A'' \<mapsto> 1, ''B'' \<mapsto> 1], areaID = 2,
            areaList = [[(0, 0), (2000, 2000), (4000, 4000), (6000, 6000)]]\<rparr>
   \<and> assignArea ''C'' [(10000, 10000), (20000, 20000), (30000, 30000)]
      \<lparr>areaMap = [''A'' \<mapsto> 1, ''B'' \<mapsto> 1], areaID = 2,
       areaList = [[(0, 0), (2000, 2000), (4000, 4000), (6000, 6000)]]\<rparr>
     = Inr \<lparr>areaMap = [''A'' \<mapsto> 1, ''B'' \<mapsto> 1, ''C'' \<mapsto> 2], areaID = 3,
            areaList = [[(0, 0), (2000, 2000), (4000, 4000), (6000, 6000)],
                        [(10000, 10000), (20000, 20000), (30000, 30000)]]\<rparr>
   \<and> sequentialIds \<lparr>areaMap = [''A'' \<mapsto> 1, ''B'' \<mapsto> 1, ''C'' \<mapsto> 2], areaID = 3,
            areaList = [[(0, 0), (2000, 2000), (4000, 4000), (6000, 6000)],
                        [(10000, 10000), (20000, 20000), (30000, 30000)]]\<rparr>
   \<and> (\<exists>u u' st. readFile homeLog = Inr u
         \<and> findResidentialAreaByTopKCells 1800 u = Inr (u', st)
         \<and> map (areaMap st) [''A'', ''B'', ''C'', ''D''] = [Some 1, Some 1, Some 2, None]
         \<and> areaID st = 3
         \<and> sequentialIds st)"
proof -
  let ?s1 = "\<lparr>areaMap = [''A'' \<mapsto> 1], areaID = 2,
       areaList = [[(0, 0), (2000, 2000), (4000, 4000)]]\<rparr>"
  let ?s2 = "\<lparr>areaMap = [''A'' \<mapsto> 1, ''B'' \<mapsto> 1], areaID = 2,
            areaList = [[(0, 0), (2000, 2000), (4000, 4000), (6000, 6000)]]\<rparr>"
  let ?s3 = "\<lparr>areaMap = [''A'' \<mapsto> 1, ''B'' \<mapsto> 1, ''C'' \<mapsto> 2], areaID = 3,
            areaList = [[(0, 0), (2000, 2000), (4000, 4000), (6000, 6000)],
                        [(10000, 10000), (20000, 20000), (30000, 30000)]]\<rparr>"
  have s1: "sequentialIds ?s1"
    by (simp add: sequentialIds_def)
  have b: "assignArea ''B'' [(2000, 2000), (4000, 4000), (6000, 6000)] ?s1 = Inr ?s2"
    by (simp add: assignArea_def areaLoop.simps merge_def merge_loop.simps place_def
        vector_at_def getTimeValue_def mktime_def)
  from first_fit_area_assignment [where cellTag = "''B''"
      and currSegList = "[(2000, 2000), (4000, 4000), (6000, 6000)]"
      and st = ?s1 and st' = ?s2, THEN conjunct2, THEN conjunct1] b s1
  have s2: "sequentialIds ?s2"
    by blast
  have c: "assignArea ''C'' [(10000, 10000), (20000, 20000), (30000, 30000)] ?s2 = Inr ?s3"
    by (simp add: assignArea_def areaLoop.simps merge_def merge_loop.simps place_def
        vector_at_def getTimeValue_def mktime_def)
  from first_fit_area_assignment [where cellTag = "''C''"
      and currSegList = "[(10000, 10000), (20000, 20000), (30000, 30000)]"
      and st = ?s2 and st' = ?s3, THEN conjunct2, THEN conjunct1] c s2
  have s3: "sequentialIds ?s3"
    by blast
  from homeLog_result obtain u u' st where
    run: "readFile homeLog = Inr u \<and> findResidentialAreaByTopKCells 1800 u = Inr (u', st)
      \<and> map (areaMap st) [''A'', ''B'', ''C'', ''D''] = [Some 1, Some 1, Some 2, None]
      \<and> areaID st = 3
      \<and> areaList st =
           [[(0, 0), (2000, 2000), (4000, 4000), (6000, 6000)],
            [(10000, 10000), (20000, 20000), (30000, 30000)]]"
    by (elim exE)
  then obtain uEnd where loop: "topKLoop 1800 u initialAreas = Inr (uEnd, st)"
    using findResidentialAreaByTopKCells_loop by blast
  from first_fit_area_assignment [where st = initialAreas and interval = 1800 and u = u
      and uEnd = uEnd and stEnd = st,
      THEN conjunct2, THEN conjunct2, THEN conjunct2, THEN conjunct2, THEN conjunct2,
      THEN conjunct1] loop initialAreas_sequential
  have "sequentialIds st"
    by simp
  with run have "\<exists>u u' st. readFile homeLog = Inr u
         \<and> findResidentialAreaByTopKCells 1800 u = Inr (u', st)
         \<and> map (areaMap st) [''A'', ''B'', ''C'', ''D''] = [Some 1, Some 1, Some 2, None]
         \<and> areaID st = 3
         \<and> sequentialIds st"
    by (intro exI [of _ u] exI [of _ u'] exI [of _ st]) simp
  with b s2 c s3 show ?thesis
    by (intro conjI)
qed

end
